theory Spec2Isabelle
  imports Main
begin

section \<open>Characters and character classes of the patterns\<close>

text \<open>
  A line of a workflow file is a Python \<open>str\<close>; it is modelled as a \<open>string\<close> whose
  characters are the code points below 256. The classes below are the ones Python's
  \<open>re\<close> module uses for \<open>str\<close> patterns (no flag is passed in the source, so the classes
  are the Unicode ones, listed here for the code points below 256).
\<close>

definition code :: "char \<Rightarrow> nat" where
  "code c = of_char c"

text \<open>\<open>\s\<close>\<close>
definition is_space :: "char \<Rightarrow> bool" where
  "is_space c = (code c \<in> {9, 10, 11, 12, 13, 28, 29, 30, 31, 32, 133, 160})"

text \<open>\<open>\d\<close>\<close>
definition is_digit :: "char \<Rightarrow> bool" where
  "is_digit c = (48 \<le> code c \<and> code c \<le> 57)"

text \<open>\<open>\w\<close>\<close>
definition is_word :: "char \<Rightarrow> bool" where
  "is_word c = (let n = code c in
     (48 \<le> n \<and> n \<le> 57) \<or> (65 \<le> n \<and> n \<le> 90) \<or> n = 95 \<or> (97 \<le> n \<and> n \<le> 122) \<or>
     n \<in> {170, 178, 179, 181, 185, 186, 188, 189, 190} \<or>
     (192 \<le> n \<and> n \<le> 214) \<or> (216 \<le> n \<and> n \<le> 246) \<or> (248 \<le> n \<and> n \<le> 255))"

text \<open>\<open>[\w-]\<close>\<close>
definition is_name_char :: "char \<Rightarrow> bool" where
  "is_name_char c = (is_word c \<or> c = CHR ''-'')"

text \<open>\<open>[a-f0-9]\<close>\<close>
definition is_hex :: "char \<Rightarrow> bool" where
  "is_hex c = ((48 \<le> code c \<and> code c \<le> 57) \<or> (97 \<le> code c \<and> code c \<le> 102))"

text \<open>\<open>[\d.]\<close>\<close>
definition is_ver_char :: "char \<Rightarrow> bool" where
  "is_ver_char c = (is_digit c \<or> c = CHR ''.'')"

section \<open>The Reference Matcher: the three patterns of \<open>process_line\<close>\<close>

text \<open>
  \<open>re.search(r'uses:\s+([\w-]+)/([\w-]+)@([a-f0-9]+)\s+#\s*v?([\d.]+)', line)\<close>.

  \<open>match_ref_here\<close> is the attempt to match the pattern at the first character of its
  argument; it returns the four groups. Every quantifier of the pattern is greedy and is
  followed by an item that no character of the quantified class can start (a space is no
  name character, \<open>/\<close> and \<open>@\<close> are no name characters, a space is no hexadecimal digit,
  \<open>#\<close> is no space, \<open>v\<close> and the version characters are no spaces, \<open>v\<close> is no version
  character), so giving characters back never turns a failed attempt into a match: the
  backtracking matcher finds exactly the match that takes the longest run at each step.
\<close>

definition match_ref_here :: "string \<Rightarrow> (string \<times> string \<times> string \<times> string) option" where
  "match_ref_here s =
     (if take 5 s \<noteq> ''uses:'' then None
      else let s1 = drop 5 s; s2 = dropWhile is_space s1 in
      if takeWhile is_space s1 = [] then None
      else let owner = takeWhile is_name_char s2; s3 = dropWhile is_name_char s2 in
      if owner = [] \<or> take 1 s3 \<noteq> ''/'' then None
      else let repo = takeWhile is_name_char (drop 1 s3); s4 = dropWhile is_name_char (drop 1 s3) in
      if repo = [] \<or> take 1 s4 \<noteq> ''@'' then None
      else let sha = takeWhile is_hex (drop 1 s4); s5 = dropWhile is_hex (drop 1 s4) in
      if sha = [] \<or> takeWhile is_space s5 = [] then None
      else let s6 = dropWhile is_space s5 in
      if take 1 s6 \<noteq> ''#'' then None
      else let s7 = dropWhile is_space (drop 1 s6);
               s8 = (if take 1 s7 = ''v'' then drop 1 s7 else s7);
               ver = takeWhile is_ver_char s8 in
      if ver = [] then None else Some (owner, repo, sha, ver))"

text \<open>\<open>re.search\<close>: the attempt is made at each position from the left; the first match wins.\<close>

fun re_search_ref :: "string \<Rightarrow> (string \<times> string \<times> string \<times> string) option" where
  "re_search_ref [] = match_ref_here []"
| "re_search_ref (c # cs) =
     (case match_ref_here (c # cs) of Some g \<Rightarrow> Some g | None \<Rightarrow> re_search_ref cs)"

text \<open>
  \<open>re.sub(r'@([a-f0-9]+)', repl, line)\<close>: every non-overlapping occurrence, from the left,
  is replaced (no \<open>count\<close> is passed). \<open>f\<close> is the expanded replacement, a function of
  group 1.
\<close>

function re_sub_sha :: "(string list \<Rightarrow> string) \<Rightarrow> string \<Rightarrow> string" where
  "re_sub_sha f [] = []"
| "re_sub_sha f (c # cs) =
     (if c = CHR ''@'' \<and> takeWhile is_hex cs \<noteq> []
      then f [takeWhile is_hex cs] @ re_sub_sha f (dropWhile is_hex cs)
      else c # re_sub_sha f cs)"
  by pat_completeness auto
termination
  by (relation "measure (\<lambda>(f, s). length s)") (auto simp: length_dropWhile_le less_Suc_eq_le)

text \<open>
  \<open>re.sub(r'#\s*v?[\d.]+', repl, line)\<close>. \<open>ver_tail\<close> is what follows \<open>#\<close>, spaces and an
  optional \<open>v\<close>: the pattern matches at a \<open>#\<close> when the tail starts with a version character.
\<close>

definition ver_tail :: "string \<Rightarrow> string" where
  "ver_tail cs = (let s = dropWhile is_space cs in if take 1 s = ''v'' then drop 1 s else s)"

function re_sub_ver :: "(string list \<Rightarrow> string) \<Rightarrow> string \<Rightarrow> string" where
  "re_sub_ver f [] = []"
| "re_sub_ver f (c # cs) =
     (if c = CHR ''#'' \<and> takeWhile is_ver_char (ver_tail cs) \<noteq> []
      then f [] @ re_sub_ver f (dropWhile is_ver_char (ver_tail cs))
      else c # re_sub_ver f cs)"
  by pat_completeness auto
termination
proof (relation "measure (\<lambda>(f, s). length s)")
  fix f :: "string list \<Rightarrow> string" and c :: char and cs :: string
  have "length (dropWhile is_ver_char (ver_tail cs)) \<le> length (ver_tail cs)"
    by (rule length_dropWhile_le)
  also have "length (ver_tail cs) \<le> length (dropWhile is_space cs)"
    by (simp add: ver_tail_def Let_def)
  also have "\<dots> \<le> length cs"
    by (rule length_dropWhile_le)
  finally show "((f, dropWhile is_ver_char (ver_tail cs)), (f, c # cs)) \<in> measure (\<lambda>(f, s). length s)"
    by simp
qed simp_all

section \<open>Exceptions, the environment and the state of a run\<close>

text \<open>The exceptions that can leave a function of the program.\<close>

datatype exn =
    SystemExit nat
  | TypeError
  | InvalidVersion
  | ReError
  | OSError
  | UnicodeDecodeError

text \<open>
  What the tag-listing endpoint can answer. The body is what \<open>response.json()\<close> gives:
  not JSON at all (a \<open>ValueError\<close>), or an array of tag objects, where the \<open>name\<close> key or
  the \<open>commit.sha\<close> key of an object may be missing (a \<open>KeyError\<close>). The two rate-limit
  headers are absent or hold an integer.
\<close>

datatype tag_entry = TagEntry (tag_name: "string option") (commit_sha: "string option")

datatype json_body = NotJson | TagList "tag_entry list"

record response =
  status_code :: nat
  remaining_header :: "int option"
  reset_header :: "int option"
  body :: json_body

datatype http_outcome =
    Responded response
  | ConnectionError
  | Timeout
  | OtherRequestException

text \<open>The lines the program prints.\<close>

datatype diag =
    MsgSkippingRateLimit
  | MsgNetworkError
  | MsgTimedOut string string
  | MsgRequestError string string
  | MsgInvalidToken
  | MsgHttpError string string nat
  | MsgJsonError string string
  | MsgRateLimitWait int
  | MsgRateLimitReached
  | MsgFoundUpdate string string string string
  | MsgDryRun string string string
  | MsgUpdatedFile string
  | MsgWriteError string
  | MsgBackupCreated string
  | MsgBackupError string
  | MsgFileError string
  | MsgCheckingFile string

text \<open>
  How a write to a file ends: done; refused when the file is opened, before anything was
  written; failed while the data was written, after the first \<open>k\<close> characters reached the
  file (\<open>Partial k\<close>); or failed when the file was closed and the buffered data flushed,
  after the first \<open>k\<close> characters reached the file (\<open>PartialAtClose k\<close>).
\<close>

datatype io_outcome = Done | Refused | Partial nat | PartialAtClose nat

text \<open>
  The environment of a run, fixed from outside the program:
  \<^item> \<open>http_get n owner repo token\<close>: the outcome of the \<open>n\<close>-th request of the run;
  \<^item> \<open>version_gt a b\<close>: the value of \<open>version.parse(a) > version.parse(b)\<close> of the
    \<open>packaging\<close> library, or the exception it raises;
  \<^item> \<open>re_template n repl\<close>: the expansion by the \<open>re\<close> module of a replacement string that
    contains a backslash, for a pattern with \<open>n\<close> groups, or the exception it raises
    (a replacement without a backslash is taken literally and never reaches this);
  \<^item> the failures of the file system.
\<close>

record env =
  http_get :: "nat \<Rightarrow> string \<Rightarrow> string \<Rightarrow> string option \<Rightarrow> http_outcome"
  version_gt :: "string \<Rightarrow> string \<Rightarrow> exn + bool"
  re_template :: "nat \<Rightarrow> string \<Rightarrow> exn + (string list \<Rightarrow> string)"
  read_fault :: "string \<Rightarrow> exn option"
  makedirs_fails :: "string \<Rightarrow> bool"
  copy_outcome :: "string \<Rightarrow> string \<Rightarrow> io_outcome"
  write_outcome :: "string \<Rightarrow> io_outcome"

text \<open>
  The state a run changes: the two globals \<open>version_cache\<close> and \<open>rate_limit_exceeded\<close>, the
  requests sent so far, the clock (seconds) and the sleeps taken, the printed lines, the
  files (decoded content by path) and directories, and the \<open>stats\<close> dictionary.
\<close>

record world =
  version_cache :: "(string \<times> string) \<rightharpoonup> (string \<times> string)"
  rate_limit_exceeded :: bool
  requests :: "(string \<times> string) list"
  clock :: int
  sleeps :: "int list"
  out :: "diag list"
  files :: "string \<rightharpoonup> string"
  dirs :: "string set"
  total_files :: nat
  files_updated :: nat
  total_changes :: nat

definition emit :: "diag \<Rightarrow> world \<Rightarrow> world" where
  "emit d w = w\<lparr>out := out w @ [d]\<rparr>"

section \<open>The Version Resolver and the Rate Limit Guard\<close>

definition check_rate_limit :: "bool \<Rightarrow> world \<Rightarrow> bool \<times> world" where
  "check_rate_limit verbose w =
     (if rate_limit_exceeded w
      then (True, if verbose then emit MsgSkippingRateLimit w else w)
      else (False, w))"

definition get_cached_version :: "string \<Rightarrow> string \<Rightarrow> world \<Rightarrow> (string \<times> string) option" where
  "get_cached_version owner repo w = version_cache w (owner, repo)"

text \<open>
  \<open>int(response.headers.get('X-RateLimit-Remaining', 0))\<close> and
  \<open>int(response.headers.get('X-RateLimit-Reset', 0))\<close>.
\<close>

definition remaining_of :: "response \<Rightarrow> int" where
  "remaining_of r = (case remaining_header r of None \<Rightarrow> 0 | Some n \<Rightarrow> n)"

definition reset_of :: "response \<Rightarrow> int" where
  "reset_of r = (case reset_header r of None \<Rightarrow> 0 | Some n \<Rightarrow> n)"

definition handle_rate_limit :: "response \<Rightarrow> world \<Rightarrow> world" where
  "handle_rate_limit r w =
     (let remaining = remaining_of r;
          reset_time = reset_of r
      in if remaining = 0
         then let wait_time = max 0 (reset_time - clock w)
              in (emit (MsgRateLimitWait wait_time) w)
                   \<lparr>rate_limit_exceeded := False,
                    clock := clock w + wait_time,
                    sleeps := sleeps w @ [wait_time]\<rparr>
         else emit MsgRateLimitReached (w\<lparr>rate_limit_exceeded := True\<rparr>))"

definition handle_http_error :: "response \<Rightarrow> string \<Rightarrow> string \<Rightarrow> world \<Rightarrow> (exn + unit) \<times> world" where
  "handle_http_error r owner repo w =
     (if status_code r = 401 then (Inl (SystemExit 1), emit MsgInvalidToken w)
      else if status_code r = 403 then (Inr (), handle_rate_limit r w)
      else (Inr (), emit (MsgHttpError owner repo (status_code r)) w))"

text \<open>\<open>response.raise_for_status()\<close> raises for the client and server error codes.\<close>

definition raises_for_status :: "response \<Rightarrow> bool" where
  "raises_for_status r = (400 \<le> status_code r \<and> status_code r < 600)"

text \<open>The \<open>Authorization\<close> header is sent when the token is not empty.\<close>

definition auth_token :: "string option \<Rightarrow> string option" where
  "auth_token github_token =
     (case github_token of None \<Rightarrow> None | Some t \<Rightarrow> if t = [] then None else Some t)"

definition execute_github_request ::
  "env \<Rightarrow> string \<Rightarrow> string \<Rightarrow> string option \<Rightarrow> world \<Rightarrow> (exn + response option) \<times> world" where
  "execute_github_request e owner repo github_token w =
     (let w1 = w\<lparr>requests := requests w @ [(owner, repo)]\<rparr>
      in case http_get e (length (requests w)) owner repo (auth_token github_token) of
           Responded r \<Rightarrow>
             if raises_for_status r
             then (case handle_http_error r owner repo w1 of
                     (Inl x, w2) \<Rightarrow> (Inl x, w2)
                   | (Inr _, w2) \<Rightarrow> (Inr None, w2))
             else (Inr (Some r), w1)
         | ConnectionError \<Rightarrow> (Inr None, emit MsgNetworkError w1)
         | Timeout \<Rightarrow> (Inr None, emit (MsgTimedOut owner repo) w1)
         | OtherRequestException \<Rightarrow> (Inr None, emit (MsgRequestError owner repo) w1))"

definition handle_version_response ::
  "response \<Rightarrow> string \<Rightarrow> string \<Rightarrow> world \<Rightarrow> (string \<times> string) option \<times> world" where
  "handle_version_response r owner repo w =
     (if status_code r = 200
      then (case body r of
              NotJson \<Rightarrow> (None, emit (MsgJsonError owner repo) w)
            | TagList [] \<Rightarrow> (None, w)
            | TagList (t # _) \<Rightarrow>
                (case tag_name t of
                   None \<Rightarrow> (None, emit (MsgJsonError owner repo) w)
                 | Some latest_version \<Rightarrow>
                     (case commit_sha t of
                        None \<Rightarrow> (None, emit (MsgJsonError owner repo) w)
                      | Some latest_sha \<Rightarrow>
                          (Some (latest_version, latest_sha),
                           w\<lparr>version_cache :=
                               (version_cache w)((owner, repo) \<mapsto> (latest_version, latest_sha))\<rparr>))))
      else (None, w))"

definition get_latest_version ::
  "env \<Rightarrow> string \<Rightarrow> string \<Rightarrow> string option \<Rightarrow> bool \<Rightarrow> world
     \<Rightarrow> (exn + (string \<times> string) option) \<times> world" where
  "get_latest_version e owner repo github_token verbose w =
     (case check_rate_limit verbose w of
        (True, w1) \<Rightarrow> (Inr None, w1)
      | (False, w1) \<Rightarrow>
          (case get_cached_version owner repo w1 of
             Some cached_result \<Rightarrow> (Inr (Some cached_result), w1)
           | None \<Rightarrow>
               (case execute_github_request e owner repo github_token w1 of
                  (Inl x, w2) \<Rightarrow> (Inl x, w2)
                | (Inr None, w2) \<Rightarrow> (Inr None, w2)
                | (Inr (Some r), w2) \<Rightarrow>
                    if \<not> raises_for_status r
                    then (case handle_version_response r owner repo w2 of
                            (res, w3) \<Rightarrow> (Inr res, w3))
                    else (Inr None, w2))))"

section \<open>Processing one line\<close>

text \<open>
  \<open>latest_version.lower().startswith('v')\<close>: the first character is \<open>v\<close> or \<open>V\<close>; it is
  dropped.
\<close>

definition strip_v :: "string \<Rightarrow> string" where
  "strip_v s = (if take 1 s = ''v'' \<or> take 1 s = ''V'' then drop 1 s else s)"

text \<open>
  The replacement argument of \<open>re.sub\<close>: a string without a backslash stands for itself;
  any other is expanded by the \<open>re\<close> module before the search starts.
\<close>

definition expand_template :: "env \<Rightarrow> nat \<Rightarrow> string \<Rightarrow> exn + (string list \<Rightarrow> string)" where
  "expand_template e n repl =
     (if CHR 0x5C \<in> set repl then re_template e n repl else Inr (\<lambda>_. repl))"

text \<open>
  \<open>latest_version, latest_sha = get_latest_version(...)\<close> unpacks the result: on \<open>None\<close>
  the assignment raises \<open>TypeError\<close>.
\<close>

definition process_line ::
  "env \<Rightarrow> string \<Rightarrow> string option \<Rightarrow> bool \<Rightarrow> bool \<Rightarrow> world \<Rightarrow> (exn + string \<times> bool) \<times> world" where
  "process_line e line github_token dry_run verbose w =
     (case re_search_ref line of
        None \<Rightarrow> (Inr (line, False), w)
      | Some (owner, repo, current_sha, current_version) \<Rightarrow>
          (case get_latest_version e owner repo github_token verbose w of
             (Inl x, w1) \<Rightarrow> (Inl x, w1)
           | (Inr None, w1) \<Rightarrow> (Inl TypeError, w1)
           | (Inr (Some (tag, latest_sha)), w1) \<Rightarrow>
               (let latest_version = strip_v tag
                in if latest_version \<noteq> [] \<and> latest_sha \<noteq> []
                   then (case version_gt e latest_version current_version of
                           Inl x \<Rightarrow> (Inl x, w1)
                         | Inr False \<Rightarrow> (Inr (line, False), w1)
                         | Inr True \<Rightarrow>
                             (let w2 = (if verbose
                                        then emit (MsgFoundUpdate owner repo current_version latest_version) w1
                                        else w1)
                              in if dry_run
                                 then (Inr (line, True),
                                       emit (MsgDryRun current_sha latest_sha latest_version) w2)
                                 else (case expand_template e 1 (''@'' @ latest_sha) of
                                         Inl x \<Rightarrow> (Inl x, w2)
                                       | Inr f \<Rightarrow>
                                           (case expand_template e 0 (''# v'' @ latest_version) of
                                              Inl x \<Rightarrow> (Inl x, w2)
                                            | Inr g \<Rightarrow>
                                                (Inr (re_sub_ver g (re_sub_sha f line), True), w2)))))
                   else (Inr (line, False), w1))))"

section \<open>The File Updater\<close>

text \<open>
  \<open>open(file_path, 'r', encoding='utf-8')\<close> reads in text mode with universal newlines:
  \<open>\r\n\<close> and a lone \<open>\r\<close> are read as \<open>\n\<close>; \<open>readlines\<close> cuts after every \<open>\n\<close>.
\<close>

fun universal_newlines :: "string \<Rightarrow> string" where
  "universal_newlines [] = []"
| "universal_newlines [c] = (if c = CHR 0x0D then [CHR 0x0A] else [c])"
| "universal_newlines (c # d # cs) =
     (if c = CHR 0x0D
      then (if d = CHR 0x0A then CHR 0x0A # universal_newlines cs
            else CHR 0x0A # universal_newlines (d # cs))
      else c # universal_newlines (d # cs))"

fun split_lines :: "string \<Rightarrow> string \<Rightarrow> string list" where
  "split_lines cur [] = (if cur = [] then [] else [cur])"
| "split_lines cur (c # cs) =
     (if c = CHR 0x0A then (cur @ [c]) # split_lines [] cs else split_lines (cur @ [c]) cs)"

definition readlines :: "string \<Rightarrow> string list" where
  "readlines content = split_lines [] (universal_newlines content)"

definition read_file :: "env \<Rightarrow> string \<Rightarrow> world \<Rightarrow> exn + string list" where
  "read_file e file_path w =
     (case files w file_path of
        None \<Rightarrow> Inl OSError
      | Some content \<Rightarrow>
          (case read_fault e file_path of Some x \<Rightarrow> Inl x | None \<Rightarrow> Inr (readlines content)))"

text \<open>\<open>os.path.dirname\<close>, \<open>os.path.basename\<close> and \<open>os.path.join\<close> on a POSIX system.\<close>

definition basename :: "string \<Rightarrow> string" where
  "basename p = rev (takeWhile (\<lambda>c. c \<noteq> CHR ''/'') (rev p))"

definition dirname :: "string \<Rightarrow> string" where
  "dirname p =
     (let head = rev (dropWhile (\<lambda>c. c \<noteq> CHR ''/'') (rev p))
      in if head \<noteq> [] \<and> (\<exists>c \<in> set head. c \<noteq> CHR ''/'')
         then rev (dropWhile (\<lambda>c. c = CHR ''/'') (rev head))
         else head)"

definition path_join :: "string \<Rightarrow> string \<Rightarrow> string" where
  "path_join a b =
     (if take 1 b = ''/'' then b
      else if a = [] \<or> last a = CHR ''/'' then a @ b
      else a @ ''/'' @ b)"

definition backup_dir_of :: "string \<Rightarrow> string" where
  "backup_dir_of file_path = path_join (dirname file_path) ''backups''"

definition backup_path_of :: "string \<Rightarrow> string" where
  "backup_path_of file_path = path_join (backup_dir_of file_path) (basename file_path)"

text \<open>\<open>os.makedirs(backup_dir, exist_ok=True)\<close>: fails when a file has that name.\<close>

definition makedirs :: "env \<Rightarrow> string \<Rightarrow> world \<Rightarrow> (exn + unit) \<times> world" where
  "makedirs e d w =
     (if makedirs_fails e d \<or> d \<in> dom (files w) then (Inl OSError, w)
      else (Inr (), w\<lparr>dirs := insert d (dirs w)\<rparr>))"

text \<open>
  \<open>shutil.copyfile(src, dst)\<close>: a failure while the copy is written or closed is raised out
  of the call.
\<close>

definition copyfile :: "env \<Rightarrow> string \<Rightarrow> string \<Rightarrow> world \<Rightarrow> (exn + unit) \<times> world" where
  "copyfile e src dst w =
     (case files w src of
        None \<Rightarrow> (Inl OSError, w)
      | Some content \<Rightarrow>
          if src = dst then (Inl OSError, w)
          else (case copy_outcome e src dst of
                  Done \<Rightarrow> (Inr (), w\<lparr>files := (files w)(dst \<mapsto> content)\<rparr>)
                | Refused \<Rightarrow> (Inl OSError, w)
                | Partial k \<Rightarrow> (Inl OSError, w\<lparr>files := (files w)(dst \<mapsto> take k content)\<rparr>)
                | PartialAtClose k \<Rightarrow>
                    (Inl OSError, w\<lparr>files := (files w)(dst \<mapsto> take k content)\<rparr>)))"

text \<open>The body of \<open>create_backup\<close>'s \<open>try\<close>, then the function with its handler.\<close>

definition create_backup_body :: "env \<Rightarrow> string \<Rightarrow> bool \<Rightarrow> world \<Rightarrow> (exn + unit) \<times> world" where
  "create_backup_body e file_path verbose w =
     (case makedirs e (backup_dir_of file_path) w of
        (Inl x, w1) \<Rightarrow> (Inl x, w1)
      | (Inr _, w1) \<Rightarrow>
          (case copyfile e file_path (backup_path_of file_path) w1 of
             (Inl x, w2) \<Rightarrow> (Inl x, w2)
           | (Inr _, w2) \<Rightarrow>
               (Inr (), if verbose then emit (MsgBackupCreated (backup_path_of file_path)) w2 else w2)))"

definition create_backup :: "env \<Rightarrow> string \<Rightarrow> bool \<Rightarrow> world \<Rightarrow> exn option \<times> world" where
  "create_backup e file_path verbose w =
     (case create_backup_body e file_path verbose w of
        (Inl x, w1) \<Rightarrow> if x = OSError then (None, emit (MsgBackupError file_path) w1) else (Some x, w1)
      | (Inr _, w1) \<Rightarrow> (None, w1))"

text \<open>
  The \<open>with open(file_path, 'w')\<close> block of \<open>finalize_update\<close>: opening truncates the file,
  so a failure after the file was opened leaves the part that was written. The message
  \<open>Updated file\<close> is printed inside the block, after \<open>file.writelines(updated_lines)\<close> and
  before the file is closed: a failure of \<open>writelines\<close> comes before it, a failure of the
  flush at the close comes after it.
\<close>

definition write_file :: "env \<Rightarrow> string \<Rightarrow> string list \<Rightarrow> bool \<Rightarrow> world \<Rightarrow> (exn + unit) \<times> world" where
  "write_file e file_path updated_lines verbose w =
     (case write_outcome e file_path of
        Done \<Rightarrow>
          (Inr (), let w1 = w\<lparr>files := (files w)(file_path \<mapsto> concat updated_lines)\<rparr>
                   in if verbose then emit (MsgUpdatedFile file_path) w1 else w1)
      | Refused \<Rightarrow> (Inl OSError, w)
      | Partial k \<Rightarrow>
          (Inl OSError, w\<lparr>files := (files w)(file_path \<mapsto> take k (concat updated_lines))\<rparr>)
      | PartialAtClose k \<Rightarrow>
          (Inl OSError,
           let w1 = w\<lparr>files := (files w)(file_path \<mapsto> take k (concat updated_lines))\<rparr>
           in if verbose then emit (MsgUpdatedFile file_path) w1 else w1))"

definition finalize_update ::
  "env \<Rightarrow> string \<Rightarrow> string list \<Rightarrow> bool \<Rightarrow> nat \<Rightarrow> bool \<Rightarrow> bool \<Rightarrow> bool \<Rightarrow> world
     \<Rightarrow> exn option \<times> world" where
  "finalize_update e file_path updated_lines changed changes_made dry_run backup verbose w =
     (if changed
      then (let w1 = w\<lparr>files_updated := files_updated w + 1,
                       total_changes := total_changes w + changes_made\<rparr>
            in if \<not> dry_run
               then (case (if backup then create_backup e file_path verbose w1 else (None, w1)) of
                       (Some x, w2) \<Rightarrow> (Some x, w2)
                     | (None, w2) \<Rightarrow>
                         (case write_file e file_path updated_lines verbose w2 of
                            (Inl x, w3) \<Rightarrow>
                              if x = OSError then (None, emit (MsgWriteError file_path) w3)
                              else (Some x, w3)
                          | (Inr _, w3) \<Rightarrow> (None, w3)))
               else (None, w1))
      else (None, w))"

text \<open>The loop over the lines of a file, with its three accumulators.\<close>

fun process_lines ::
  "env \<Rightarrow> string option \<Rightarrow> bool \<Rightarrow> bool \<Rightarrow> string list \<Rightarrow> string list \<times> bool \<times> nat \<Rightarrow> world
     \<Rightarrow> (exn + string list \<times> bool \<times> nat) \<times> world" where
  "process_lines e github_token dry_run verbose [] acc w = (Inr acc, w)"
| "process_lines e github_token dry_run verbose (line # rest) (updated_lines, changed, changes_made) w =
     (case process_line e line github_token dry_run verbose w of
        (Inl x, w1) \<Rightarrow> (Inl x, w1)
      | (Inr (updated_line, was_changed), w1) \<Rightarrow>
          process_lines e github_token dry_run verbose rest
            (updated_lines @ [updated_line],
             changed \<or> was_changed,
             if was_changed then changes_made + 1 else changes_made) w1)"

text \<open>\<open>except (IOError, OSError)\<close> of \<open>update_action_version\<close>.\<close>

definition file_handler :: "string \<Rightarrow> exn \<Rightarrow> world \<Rightarrow> exn option \<times> world" where
  "file_handler file_path x w =
     (if x = OSError then (None, emit (MsgFileError file_path) w) else (Some x, w))"

definition update_action_version ::
  "env \<Rightarrow> string \<Rightarrow> string option \<Rightarrow> bool \<Rightarrow> bool \<Rightarrow> bool \<Rightarrow> world \<Rightarrow> exn option \<times> world" where
  "update_action_version e file_path github_token dry_run backup verbose w =
     (case read_file e file_path w of
        Inl x \<Rightarrow> file_handler file_path x w
      | Inr lines \<Rightarrow>
          (case process_lines e github_token dry_run verbose lines ([], False, 0) w of
             (Inl x, w1) \<Rightarrow> file_handler file_path x w1
           | (Inr (updated_lines, changed, changes_made), w1) \<Rightarrow>
               (case finalize_update e file_path updated_lines changed changes_made
                       dry_run backup verbose w1 of
                  (Some x, w2) \<Rightarrow> file_handler file_path x w2
                | (None, w2) \<Rightarrow> (None, w2))))"

section \<open>The Run Orchestrator\<close>

text \<open>
  The inner loop of \<open>update_all_actions\<close> over the candidate files, in the order in which
  \<open>os.walk\<close> and the extension filter deliver them.
\<close>

fun update_files ::
  "env \<Rightarrow> string option \<Rightarrow> bool \<Rightarrow> bool \<Rightarrow> bool \<Rightarrow> string list \<Rightarrow> world \<Rightarrow> exn option \<times> world" where
  "update_files e github_token dry_run backup verbose [] w = (None, w)"
| "update_files e github_token dry_run backup verbose (file_path # rest) w =
     (let w1 = (if verbose then emit (MsgCheckingFile file_path) w else w);
          w2 = w1\<lparr>total_files := total_files w1 + 1\<rparr>
      in case update_action_version e file_path github_token dry_run backup verbose w2 of
           (Some x, w3) \<Rightarrow> (Some x, w3)
         | (None, w3) \<Rightarrow> update_files e github_token dry_run backup verbose rest w3)"

section \<open>A concrete environment\<close>

text \<open>
  The comparison of the \<open>packaging\<close> library (release 22 or later, where a string that is
  no version raises \<open>InvalidVersion\<close>) on the strings that consist of digits and dots: such a
  string is a version when its dot-separated parts are non-empty numbers; the release
  tuples are compared after their trailing zeros are dropped. Versions with other
  segments (epoch, pre-, post-, dev-release, local label, a leading \<open>v\<close>) are outside
  this instance, which is used at strings of digits and dots only.
\<close>

fun digits_value :: "nat \<Rightarrow> string \<Rightarrow> nat" where
  "digits_value acc [] = acc"
| "digits_value acc (c # cs) = digits_value (10 * acc + (code c - 48)) cs"

fun split_dots :: "string \<Rightarrow> string \<Rightarrow> string list" where
  "split_dots cur [] = [cur]"
| "split_dots cur (c # cs) =
     (if c = CHR ''.'' then cur # split_dots [] cs else split_dots (cur @ [c]) cs)"

definition release_of :: "string \<Rightarrow> nat list option" where
  "release_of s =
     (let parts = split_dots [] s
      in if list_all (\<lambda>p. p \<noteq> [] \<and> list_all is_digit p) parts
         then Some (rev (dropWhile (\<lambda>n. n = 0) (rev (map (digits_value 0) parts))))
         else None)"

fun tuple_less :: "nat list \<Rightarrow> nat list \<Rightarrow> bool" where
  "tuple_less [] [] = False"
| "tuple_less [] (y # ys) = True"
| "tuple_less (x # xs) [] = False"
| "tuple_less (x # xs) (y # ys) = (x < y \<or> (x = y \<and> tuple_less xs ys))"

definition release_gt :: "string \<Rightarrow> string \<Rightarrow> exn + bool" where
  "release_gt a b =
     (case release_of a of
        None \<Rightarrow> Inl InvalidVersion
      | Some ka \<Rightarrow>
          (case release_of b of
             None \<Rightarrow> Inl InvalidVersion
           | Some kb \<Rightarrow> Inr (tuple_less kb ka)))"

text \<open>
  The same comparison on the strings \<open>N(.N)*-N\<close> as well: the library reads the suffix
  \<open>-N\<close> as the post-release \<open>N\<close> of the release before it (\<open>1.3.0-1\<close> is \<open>1.3.0.post1\<close>),
  which is greater than the release itself and smaller than every greater release; a
  version without the suffix comes before every post-release of the same release.
\<close>

definition version_of :: "string \<Rightarrow> (nat list \<times> nat option) option" where
  "version_of s =
     (let rel = takeWhile (\<lambda>c. c \<noteq> CHR ''-'') s;
          suffix = dropWhile (\<lambda>c. c \<noteq> CHR ''-'') s
      in case release_of rel of
           None \<Rightarrow> None
         | Some k \<Rightarrow>
             if suffix = [] then Some (k, None)
             else if tl suffix \<noteq> [] \<and> list_all is_digit (tl suffix)
                  then Some (k, Some (digits_value 0 (tl suffix)))
                  else None)"

definition key_less :: "nat list \<times> nat option \<Rightarrow> nat list \<times> nat option \<Rightarrow> bool" where
  "key_less a b =
     (tuple_less (fst a) (fst b) \<or>
      (fst a = fst b \<and>
       (case snd b of
          None \<Rightarrow> False
        | Some n \<Rightarrow> (case snd a of None \<Rightarrow> True | Some m \<Rightarrow> m < n))))"

definition post_release_gt :: "string \<Rightarrow> string \<Rightarrow> exn + bool" where
  "post_release_gt a b =
     (case version_of a of
        None \<Rightarrow> Inl InvalidVersion
      | Some ka \<Rightarrow>
          (case version_of b of
             None \<Rightarrow> Inl InvalidVersion
           | Some kb \<Rightarrow> Inr (key_less kb ka)))"

text \<open>
  An environment in which the \<open>n\<close>-th request is answered by \<open>replies n\<close> and no file
  operation fails, and the state at the start of a run over the given files.
\<close>

definition plain_env :: "(nat \<Rightarrow> http_outcome) \<Rightarrow> env" where
  "plain_env replies =
     \<lparr>http_get = (\<lambda>n owner repo token. replies n),
      version_gt = release_gt,
      re_template = (\<lambda>n repl. Inl ReError),
      read_fault = (\<lambda>p. None),
      makedirs_fails = (\<lambda>d. False),
      copy_outcome = (\<lambda>src dst. Done),
      write_outcome = (\<lambda>p. Done)\<rparr>"

definition start_world :: "(string \<rightharpoonup> string) \<Rightarrow> world" where
  "start_world fs =
     \<lparr>version_cache = Map.empty, rate_limit_exceeded = False, requests = [], clock = 0,
      sleeps = [], out = [], files = fs, dirs = {}, total_files = 0, files_updated = 0,
      total_changes = 0\<rparr>"

text \<open>A \<open>200\<close> answer listing one tag, and an answer with an error status.\<close>

definition tags_response :: "string \<Rightarrow> string \<Rightarrow> http_outcome" where
  "tags_response tag sha =
     Responded \<lparr>status_code = 200, remaining_header = None, reset_header = None,
                body = TagList [TagEntry (Some tag) (Some sha)]\<rparr>"

definition error_response :: "nat \<Rightarrow> int option \<Rightarrow> int option \<Rightarrow> http_outcome" where
  "error_response status remaining reset =
     Responded \<lparr>status_code = status, remaining_header = remaining, reset_header = reset,
                body = NotJson\<rparr>"

section \<open>The shape of a reference, as the specification describes it\<close>

text \<open>
  The text of a reference: the directive, the owner and repository, the pinned hash, and
  the version comment with its prefix \<open>pre\<close> (empty, \<open>v\<close> or \<open>V\<close>) before the version.
\<close>

definition ref_text ::
  "string \<Rightarrow> string \<Rightarrow> string \<Rightarrow> string \<Rightarrow> string \<Rightarrow> string \<Rightarrow> string \<Rightarrow> string \<Rightarrow> string" where
  "ref_text ws1 owner repo sha ws2 ws3 pre ver =
     ''uses:'' @ ws1 @ owner @ ''/'' @ repo @ ''@'' @ sha @ ws2 @ ''#'' @ ws3 @ pre @ ver"

text \<open>
  The parts are of the classes the specification names: spaces after the directive and
  before the comment marker (at least one each), spaces after the marker (any number),
  non-empty names, a non-empty lowercase hexadecimal hash, a non-empty dotted number.
\<close>

definition ref_parts ::
  "string \<Rightarrow> string \<Rightarrow> string \<Rightarrow> string \<Rightarrow> string \<Rightarrow> string \<Rightarrow> string \<Rightarrow> bool" where
  "ref_parts ws1 owner repo sha ws2 ws3 ver =
     (ws1 \<noteq> [] \<and> list_all is_space ws1 \<and>
      owner \<noteq> [] \<and> list_all is_name_char owner \<and>
      repo \<noteq> [] \<and> list_all is_name_char repo \<and>
      sha \<noteq> [] \<and> list_all is_hex sha \<and>
      ws2 \<noteq> [] \<and> list_all is_space ws2 \<and>
      list_all is_space ws3 \<and>
      ver \<noteq> [] \<and> list_all is_ver_char ver)"

text \<open>\<open>stops P s\<close>: a run of \<open>P\<close>-characters ends where \<open>s\<close> starts.\<close>

definition stops :: "(char \<Rightarrow> bool) \<Rightarrow> string \<Rightarrow> bool" where
  "stops P s = (case s of [] \<Rightarrow> True | c # _ \<Rightarrow> \<not> P c)"

section \<open>A sequence of resolutions\<close>

text \<open>
  The resolver called for a list of (owner, repository) pairs, one after the other; an
  exception ends the sequence. This is no function of the program: in a run the
  resolver is called by \<open>process_line\<close>, where a call that returns none ends the run
  (the unpacking of the result raises \<open>TypeError\<close>), while the sequences here go on
  after such a call. They include every sequence of calls that a run makes, so what
  holds for all of them holds for the calls of a run.
\<close>

fun resolve_all ::
  "env \<Rightarrow> string option \<Rightarrow> bool \<Rightarrow> (string \<times> string) list \<Rightarrow> world
     \<Rightarrow> (exn + (string \<times> string) option) list \<times> world" where
  "resolve_all e github_token verbose [] w = ([], w)"
| "resolve_all e github_token verbose (p # ps) w =
     (case get_latest_version e (fst p) (snd p) github_token verbose w of
        (Inl x, w1) \<Rightarrow> ([Inl x], w1)
      | (Inr res, w1) \<Rightarrow>
          (case resolve_all e github_token verbose ps w1 of
             (rs, w2) \<Rightarrow> (Inr res # rs, w2)))"

section \<open>The states of a run\<close>


section \<open>States up to the printed lines\<close>

text \<open>\<open>quiet w\<close> is the state \<open>w\<close> without its printed lines.\<close>

definition quiet :: "world \<Rightarrow> world" where
  "quiet w = w\<lparr>out := []\<rparr>"

section \<open>Lines and cache entries of the idempotence property\<close>

text \<open>
  \<open>reference_line line owner repo\<close>: the line holds one reference to the pair, in the shape
  the specification describes (the version comment written with a lowercase \<open>v\<close> or with
  no prefix), after a text without a colon, and followed by a rest that does not
  continue the version.
\<close>

definition reference_line :: "string \<Rightarrow> string \<Rightarrow> string \<Rightarrow> bool" where
  "reference_line line owner repo =
     (\<exists>indent ws1 sha ws2 ws3 pre ver rest.
        line = indent @ ref_text ws1 owner repo sha ws2 ws3 pre ver @ rest \<and>
        ref_parts ws1 owner repo sha ws2 ws3 ver \<and>
        (pre = [] \<or> pre = ''v'') \<and>
        CHR '':'' \<notin> set indent \<and>
        stops is_ver_char rest)"

text \<open>
  \<open>resolved e w owner repo\<close>: the cache holds a result for the pair: a non-empty lowercase
  hexadecimal hash and a tag that is, after its leading \<open>v\<close>, a non-empty dotted number,
  which the library does not find greater than itself.
\<close>

definition resolved :: "env \<Rightarrow> world \<Rightarrow> string \<Rightarrow> string \<Rightarrow> bool" where
  "resolved e w owner repo =
     (\<exists>tag sha.
        version_cache w (owner, repo) = Some (tag, sha) \<and>
        sha \<noteq> [] \<and> list_all is_hex sha \<and>
        strip_v tag \<noteq> [] \<and> list_all is_ver_char (strip_v tag) \<and>
        version_gt e (strip_v tag) (strip_v tag) = Inr False)"

text \<open>A line without a reference, or a reference line whose pair is resolved.\<close>

definition known_line :: "env \<Rightarrow> world \<Rightarrow> string \<Rightarrow> bool" where
  "known_line e w line =
     (re_search_ref line = None \<or>
      (\<exists>owner repo. reference_line line owner repo \<and> resolved e w owner repo))"

text \<open>
  \<open>settled e w line\<close>: in every state with the cache of \<open>w\<close> and the guard clear,
  \<open>process_line\<close> returns the line as it is, not changed, and leaves the state as it was.
\<close>

definition settled :: "env \<Rightarrow> world \<Rightarrow> string \<Rightarrow> bool" where
  "settled e w line =
     (\<forall>tok verbose w2.
        version_cache w2 = version_cache w \<and> \<not> rate_limit_exceeded w2 \<longrightarrow>
        process_line e line tok False verbose w2 = (Inr (line, False), w2))"

text \<open>
  The lines \<open>readlines\<close> delivers: a line is not empty, has no carriage return, and no
  line feed but at its end; every line but the last ends with a line feed.
\<close>

definition line_ok :: "string \<Rightarrow> bool" where
  "line_ok l = (l \<noteq> [] \<and> CHR 0x0D \<notin> set l \<and> CHR 0x0A \<notin> set (butlast l))"

fun lines_ok :: "string list \<Rightarrow> bool" where
  "lines_ok [] = True"
| "lines_ok (l # ls) = (line_ok l \<and> (ls \<noteq> [] \<longrightarrow> last l = CHR 0x0A) \<and> lines_ok ls)"

section \<open>Evaluation of the model on concrete inputs\<close>

lemmas char_class_defs =
  is_space_def is_name_char_def is_word_def is_hex_def is_ver_char_def is_digit_def code_def

lemmas resolver_defs =
  get_latest_version_def check_rate_limit_def get_cached_version_def
  execute_github_request_def handle_version_response_def handle_http_error_def
  handle_rate_limit_def remaining_of_def reset_of_def raises_for_status_def auth_token_def
  emit_def

lemmas concrete_defs =
  plain_env_def start_world_def tags_response_def error_response_def
  release_gt_def release_of_def post_release_gt_def version_of_def key_less_def

lemmas line_defs =
  process_line_def strip_v_def expand_template_def match_ref_here_def ver_tail_def Let_def

lemmas file_defs =
  update_action_version_def read_file_def readlines_def finalize_update_def
  file_handler_def create_backup_def create_backup_body_def makedirs_def copyfile_def
  write_file_def backup_dir_of_def backup_path_of_def dirname_def basename_def path_join_def

section \<open>Failures that reach the orchestrator\<close>

text \<open>
  Claim C1 (network-level failures are absorbed; the line is returned unchanged and the
  run continues). The resolver does report the failure and return none, but
  \<open>process_line\<close> unpacks the result into two names: on the line
  \<open>uses: acme/tool@deadbeef # v1.2.0\<close>, with the connection failing, it raises
  \<open>TypeError\<close> instead of returning the line; \<open>update_action_version\<close> does not catch it,
  and a run over two files ends in the first file with that exception.
\<close>

theorem C1_network_failure_raises_TypeError:
  "fst (get_latest_version (plain_env (\<lambda>n. ConnectionError)) ''acme'' ''tool''
          None False (start_world Map.empty)) = Inr None
   \<and> out (snd (get_latest_version (plain_env (\<lambda>n. ConnectionError)) ''acme'' ''tool''
          None False (start_world Map.empty))) = [MsgNetworkError]
   \<and> fst (process_line (plain_env (\<lambda>n. ConnectionError)) ''uses: acme/tool@deadbeef # v1.2.0''
          None False False (start_world Map.empty)) = Inl TypeError
   \<and> fst (update_files (plain_env (\<lambda>n. ConnectionError)) None False False False
          [''a.yml'', ''b.yml'']
          (start_world [''a.yml'' \<mapsto> ''uses: acme/tool@deadbeef # v1.2.0'',
                        ''b.yml'' \<mapsto> ''name: x''])) = Some TypeError
   \<and> total_files (snd (update_files (plain_env (\<lambda>n. ConnectionError)) None False False False
          [''a.yml'', ''b.yml'']
          (start_world [''a.yml'' \<mapsto> ''uses: acme/tool@deadbeef # v1.2.0'',
                        ''b.yml'' \<mapsto> ''name: x'']))) = 1"
  by (simp add: file_defs line_defs resolver_defs concrete_defs char_class_defs)

text \<open>
  Claim C2 (a malformed version is reported, treated as not newer, and the run
  continues). The declared version \<open>...\<close> fits the pattern \<open>[\d.]+\<close>; with the upstream tag
  \<open>v1.3.0\<close> the comparison raises \<open>InvalidVersion\<close>, nothing catches it, and the run
  ends in that file: no diagnostic, no "not newer".
\<close>

theorem C2_malformed_version_raises_InvalidVersion:
  "re_search_ref ''uses: acme/tool@deadbeef # v...'' =
     Some (''acme'', ''tool'', ''deadbeef'', ''...'')
   \<and> fst (process_line (plain_env (\<lambda>n. tags_response ''v1.3.0'' ''cafebabe''))
          ''uses: acme/tool@deadbeef # v...'' None False False (start_world Map.empty))
       = Inl InvalidVersion
   \<and> out (snd (process_line (plain_env (\<lambda>n. tags_response ''v1.3.0'' ''cafebabe''))
          ''uses: acme/tool@deadbeef # v...'' None False False (start_world Map.empty))) = []
   \<and> fst (update_files (plain_env (\<lambda>n. tags_response ''v1.3.0'' ''cafebabe'')) None False False False
          [''a.yml'', ''b.yml'']
          (start_world [''a.yml'' \<mapsto> ''uses: acme/tool@deadbeef # v...'',
                        ''b.yml'' \<mapsto> ''name: x''])) = Some InvalidVersion"
  by (simp add: file_defs line_defs resolver_defs concrete_defs char_class_defs)

text \<open>
  Claim C10 (only the hash of the reference and its version comment are replaced; other
  \<open>@\<close>-hex and \<open>#\<close>-version substrings of the line are preserved). Both substitutions
  replace every occurrence of their pattern on the line: in the trailing comment
  \<open>bob@acme\<close> and \<open>#42\<close> are rewritten too.
\<close>

theorem C10_substitution_rewrites_other_occurrences:
  "fst (process_line (plain_env (\<lambda>n. tags_response ''v1.3.0'' ''cafebabe''))
          ''uses: acme/tool@deadbeef # v1.2.0 # pinned by bob@acme, ticket #42''
          None False False (start_world Map.empty))
     = Inr (''uses: acme/tool@cafebabe # v1.3.0 # pinned by bob@cafebabeme, ticket # v1.3.0'', True)"
  by (simp add: line_defs resolver_defs concrete_defs char_class_defs)

section \<open>The prefix of the version comment\<close>

text \<open>
  Claim C9 as stated (an uppercase \<open>V\<close> before the version is matched as the lowercase
  one is) fails: the pattern has a literal lowercase \<open>v?\<close> and no flag, so the line with
  \<open># V3.1\<close> has no match, while the same line with \<open># v3.1\<close> has one.
\<close>

theorem C9_uppercase_V_counterexample:
  "re_search_ref ''uses: actions/checkout@abc123 # V3.1'' = None
   \<and> re_search_ref ''uses: actions/checkout@abc123 # v3.1'' =
       Some (''actions'', ''checkout'', ''abc123'', ''3.1'')"
  by (simp add: match_ref_here_def Let_def char_class_defs)

section \<open>Effects of the resolver\<close>

lemma glv_short_circuit:
  "rate_limit_exceeded w \<Longrightarrow>
   get_latest_version e owner repo tok verbose w =
     (Inr None, if verbose then emit MsgSkippingRateLimit w else w)"
  by (simp add: get_latest_version_def check_rate_limit_def)

lemma resolve_all_short_circuit:
  "rate_limit_exceeded w \<Longrightarrow>
   fst (resolve_all e tok verbose ps w) = replicate (length ps) (Inr None)
   \<and> requests (snd (resolve_all e tok verbose ps w)) = requests w
   \<and> version_cache (snd (resolve_all e tok verbose ps w)) = version_cache w
   \<and> rate_limit_exceeded (snd (resolve_all e tok verbose ps w))"
proof (induction ps arbitrary: w)
  case Nil
  then show ?case by simp
next
  case (Cons p ps)
  let ?w1 = "if verbose then emit MsgSkippingRateLimit w else w"
  have step: "get_latest_version e (fst p) (snd p) tok verbose w = (Inr None, ?w1)"
    using Cons.prems by (rule glv_short_circuit)
  have keep: "rate_limit_exceeded ?w1" "requests ?w1 = requests w"
    "version_cache ?w1 = version_cache w"
    using Cons.prems by (simp_all add: emit_def)
  from Cons.IH [OF keep(1)] keep step show ?case
    by (simp add: split_beta)
qed

lemma handle_rate_limit_soft:
  "remaining_of r \<noteq> 0 \<Longrightarrow> rate_limit_exceeded (handle_rate_limit r w)
     \<and> sleeps (handle_rate_limit r w) = sleeps w
     \<and> requests (handle_rate_limit r w) = requests w"
  by (simp add: handle_rate_limit_def emit_def Let_def)

lemma handle_rate_limit_hard:
  "remaining_of r = 0 \<Longrightarrow> \<not> rate_limit_exceeded (handle_rate_limit r w)
     \<and> sleeps (handle_rate_limit r w) = sleeps w @ [max 0 (reset_of r - clock w)]
     \<and> clock (handle_rate_limit r w) = clock w + max 0 (reset_of r - clock w)"
  by (simp add: handle_rate_limit_def emit_def Let_def)

lemma glv_403:
  assumes "\<not> rate_limit_exceeded w" "version_cache w (owner, repo) = None"
    and "http_get e (length (requests w)) owner repo (auth_token tok) = Responded r"
    and "status_code r = 403"
  shows "get_latest_version e owner repo tok verbose w =
           (Inr None, handle_rate_limit r (w\<lparr>requests := requests w @ [(owner, repo)]\<rparr>))"
  using assms
  by (simp add: get_latest_version_def check_rate_limit_def get_cached_version_def
      execute_github_request_def handle_http_error_def raises_for_status_def Let_def)

lemma glv_cache_hit:
  "\<not> rate_limit_exceeded w \<Longrightarrow> version_cache w (owner, repo) = Some c \<Longrightarrow>
   get_latest_version e owner repo tok verbose w = (Inr (Some c), w)"
  by (simp add: get_latest_version_def check_rate_limit_def get_cached_version_def)

lemma hvr_cache:
  "handle_version_response r owner repo w = (res, w1) \<Longrightarrow>
     rate_limit_exceeded w1 = rate_limit_exceeded w \<and> requests w1 = requests w
     \<and> files w1 = files w \<and> dirs w1 = dirs w \<and> total_files w1 = total_files w
     \<and> files_updated w1 = files_updated w \<and> total_changes w1 = total_changes w
     \<and> (\<forall>k c. version_cache w k = Some c \<and> version_cache w (owner, repo) = None
            \<longrightarrow> version_cache w1 k = Some c)
     \<and> (\<forall>c. res = Some c \<longrightarrow> version_cache w1 (owner, repo) = Some c)
     \<and> (version_cache w (owner, repo) \<noteq> None \<longrightarrow> version_cache w1 (owner, repo) \<noteq> None)"
  by (auto simp: handle_version_response_def emit_def split: if_splits json_body.splits list.splits option.splits)

lemma egr_effect:
  "execute_github_request e owner repo tok w = (res, w1) \<Longrightarrow>
     version_cache w1 = version_cache w \<and> requests w1 = requests w @ [(owner, repo)]
     \<and> files w1 = files w \<and> dirs w1 = dirs w \<and> total_files w1 = total_files w
     \<and> files_updated w1 = files_updated w \<and> total_changes w1 = total_changes w
     \<and> (\<forall>r. res = Inr (Some r) \<longrightarrow> rate_limit_exceeded w1 = rate_limit_exceeded w)"
  by (auto simp: execute_github_request_def handle_http_error_def handle_rate_limit_def emit_def Let_def
      split: if_splits http_outcome.splits prod.splits sum.splits)

lemma glv_success:
  assumes "get_latest_version e owner repo tok verbose w = (Inr (Some c), w1)"
  shows "version_cache w1 (owner, repo) = Some c \<and> \<not> rate_limit_exceeded w1"
proof (cases "rate_limit_exceeded w")
  case True
  with assms show ?thesis by (simp add: get_latest_version_def check_rate_limit_def)
next
  case False
  show ?thesis
  proof (cases "version_cache w (owner, repo)")
    case (Some d)
    with False assms show ?thesis by (simp add: glv_cache_hit)
  next
    case None
    obtain res w2 where ex: "execute_github_request e owner repo tok w = (res, w2)"
      by (cases "execute_github_request e owner repo tok w")
    from egr_effect [OF ex] have e2: "\<forall>r. res = Inr (Some r) \<longrightarrow> rate_limit_exceeded w2 = rate_limit_exceeded w"
      by simp
    from assms False None ex obtain r where r: "res = Inr (Some r)"
      and h: "handle_version_response r owner repo w2 = (Some c, w1)"
      by (auto simp: get_latest_version_def check_rate_limit_def get_cached_version_def
          split: sum.splits option.splits if_splits prod.splits)
    from hvr_cache [OF h] e2 r False show ?thesis by simp
  qed
qed

lemma glv_effect:
  assumes "get_latest_version e owner repo tok verbose w = (res, w1)"
  shows "files w1 = files w \<and> dirs w1 = dirs w \<and> total_files w1 = total_files w
     \<and> files_updated w1 = files_updated w \<and> total_changes w1 = total_changes w
     \<and> (\<forall>k c. version_cache w k = Some c \<longrightarrow> version_cache w1 k = Some c)
     \<and> (requests w1 = requests w
         \<or> (requests w1 = requests w @ [(owner, repo)] \<and> version_cache w (owner, repo) = None))"
proof (cases "rate_limit_exceeded w")
  case True
  with assms show ?thesis
    by (auto simp: get_latest_version_def check_rate_limit_def emit_def split: if_splits)
next
  case False
  show ?thesis
  proof (cases "version_cache w (owner, repo)")
    case (Some d)
    with False assms show ?thesis by (simp add: glv_cache_hit)
  next
    case None
    obtain res2 w2 where ex: "execute_github_request e owner repo tok w = (res2, w2)"
      by (cases "execute_github_request e owner repo tok w")
    note e2 = egr_effect [OF ex]
    show ?thesis
    proof (cases "\<exists>r. res2 = Inr (Some r) \<and> \<not> raises_for_status r")
      case True
      then obtain r where r: "res2 = Inr (Some r)" "\<not> raises_for_status r" by blast
      obtain res3 w3 where h: "handle_version_response r owner repo w2 = (res3, w3)"
        by (cases "handle_version_response r owner repo w2")
      from assms False None ex r h have "w1 = w3"
        by (simp add: get_latest_version_def check_rate_limit_def get_cached_version_def)
      with hvr_cache [OF h] e2 None show ?thesis by auto
    next
      case False2: False
      with assms False None ex have "w1 = w2"
        by (auto simp: get_latest_version_def check_rate_limit_def get_cached_version_def
            split: sum.splits option.splits if_splits)
      with e2 None show ?thesis by auto
    qed
  qed
qed

section \<open>The Rate Limit Guard\<close>

text \<open>
  Claim C8. A request answered with status 403 makes the resolver return none. When the
  remaining-quota header is not zero, the guard is set, and from then on every
  resolution of a sequence returns none, sends no request (the request list stays the
  one of the tripping call) and leaves the guard set. When the header is zero or absent,
  the resolver sleeps \<open>max(0, reset - now)\<close> seconds and the guard is clear afterwards.
\<close>

theorem C8_rate_limit_guard:
  assumes "\<not> rate_limit_exceeded w" "version_cache w (owner, repo) = None"
    and "http_get e (length (requests w)) owner repo (auth_token tok) = Responded r"
    and "status_code r = 403"
  shows "fst (get_latest_version e owner repo tok verbose w) = Inr None
    \<and> (if remaining_of r \<noteq> 0
        then rate_limit_exceeded (snd (get_latest_version e owner repo tok verbose w))
          \<and> fst (resolve_all e tok verbose' ps (snd (get_latest_version e owner repo tok verbose w)))
              = replicate (length ps) (Inr None)
          \<and> requests (snd (resolve_all e tok verbose' ps (snd (get_latest_version e owner repo tok verbose w))))
              = requests w @ [(owner, repo)]
          \<and> rate_limit_exceeded
               (snd (resolve_all e tok verbose' ps (snd (get_latest_version e owner repo tok verbose w))))
        else \<not> rate_limit_exceeded (snd (get_latest_version e owner repo tok verbose w))
          \<and> sleeps (snd (get_latest_version e owner repo tok verbose w))
              = sleeps w @ [max 0 (reset_of r - clock w)]
          \<and> clock (snd (get_latest_version e owner repo tok verbose w))
              = clock w + max 0 (reset_of r - clock w))"
proof -
  let ?w0 = "w\<lparr>requests := requests w @ [(owner, repo)]\<rparr>"
  have g: "get_latest_version e owner repo tok verbose w = (Inr None, handle_rate_limit r ?w0)"
    using assms by (rule glv_403)
  show ?thesis
  proof (cases "remaining_of r = 0")
    case True
    from handle_rate_limit_hard [OF True, of ?w0] g True show ?thesis by simp
  next
    case False
    from handle_rate_limit_soft [OF False, of ?w0]
    have s: "rate_limit_exceeded (handle_rate_limit r ?w0)"
      "requests (handle_rate_limit r ?w0) = requests w @ [(owner, repo)]" by simp_all
    from resolve_all_short_circuit [OF s(1), of e tok verbose' ps] s g False show ?thesis by simp
  qed
qed

theorem C8_rate_limit_guard_witness:
  "requests (snd (resolve_all (plain_env (\<lambda>n. error_response 403 (Some 5) (Some 100))) None False
        [(''acme'', ''tool''), (''x'', ''y'')]
        (snd (get_latest_version (plain_env (\<lambda>n. error_response 403 (Some 5) (Some 100)))
                ''acme'' ''tool'' None False (start_world Map.empty)))))
     = [(''acme'', ''tool'')]
   \<and> sleeps (snd (get_latest_version (plain_env (\<lambda>n. error_response 403 (Some 0) (Some 100)))
                ''acme'' ''tool'' None False (start_world Map.empty)))
     = [100]
   \<and> rate_limit_exceeded (snd (get_latest_version (plain_env (\<lambda>n. error_response 403 (Some 0) (Some 100)))
                ''acme'' ''tool'' None False (start_world Map.empty)))
     = False"
  using C8_rate_limit_guard [of "start_world Map.empty" "''acme''" "''tool''"
      "plain_env (\<lambda>n. error_response 403 (Some 5) (Some 100))" None
      "\<lparr>status_code = 403, remaining_header = Some 5, reset_header = Some 100, body = NotJson\<rparr>"
      False False "[(''acme'', ''tool''), (''x'', ''y'')]"]
    C8_rate_limit_guard [of "start_world Map.empty" "''acme''" "''tool''"
      "plain_env (\<lambda>n. error_response 403 (Some 0) (Some 100))" None
      "\<lparr>status_code = 403, remaining_header = Some 0, reset_header = Some 100, body = NotJson\<rparr>"
      False False "[]"]
  by (simp add: plain_env_def start_world_def error_response_def remaining_of_def reset_of_def)

section \<open>What line processing leaves alone\<close>

lemma glv_frame:
  assumes "get_latest_version e owner repo tok verbose w = (res, w1)"
  shows "files w1 = files w \<and> dirs w1 = dirs w \<and> total_files w1 = total_files w
     \<and> files_updated w1 = files_updated w \<and> total_changes w1 = total_changes w"
  using glv_effect [OF assms] by simp

lemma process_line_frame:
  assumes "process_line e line tok dry_run verbose w = (res, w1)"
  shows "files w1 = files w \<and> dirs w1 = dirs w \<and> total_files w1 = total_files w
     \<and> files_updated w1 = files_updated w \<and> total_changes w1 = total_changes w"
proof (cases "re_search_ref line")
  case None
  with assms show ?thesis by (simp add: process_line_def)
next
  case (Some g)
  obtain owner repo sha ver where g: "g = (owner, repo, sha, ver)" by (cases g) auto
  obtain r w2 where glv: "get_latest_version e owner repo tok verbose w = (r, w2)"
    by (cases "get_latest_version e owner repo tok verbose w")
  note fr = glv_frame [OF glv]
  have "files (snd (process_line e line tok dry_run verbose w)) = files w2
     \<and> dirs (snd (process_line e line tok dry_run verbose w)) = dirs w2
     \<and> total_files (snd (process_line e line tok dry_run verbose w)) = total_files w2
     \<and> files_updated (snd (process_line e line tok dry_run verbose w)) = files_updated w2
     \<and> total_changes (snd (process_line e line tok dry_run verbose w)) = total_changes w2"
    by (simp add: process_line_def Some g glv Let_def emit_def
        split: sum.split option.split prod.split bool.split)
  with fr assms show ?thesis by simp
qed

lemma process_lines_frame:
  "process_lines e tok dry_run verbose ls acc w = (res, w1) \<Longrightarrow>
   files w1 = files w \<and> dirs w1 = dirs w \<and> total_files w1 = total_files w
     \<and> files_updated w1 = files_updated w \<and> total_changes w1 = total_changes w"
proof (induction ls arbitrary: acc w)
  case Nil
  then show ?case by simp
next
  case (Cons l ls)
  obtain u c n where acc: "acc = (u, c, n)" by (cases acc) auto
  obtain r w2 where pl: "process_line e l tok dry_run verbose w = (r, w2)"
    by (cases "process_line e l tok dry_run verbose w")
  note fr = process_line_frame [OF pl]
  show ?case
  proof (cases r)
    case (Inl x)
    with Cons.prems acc pl fr show ?thesis by simp
  next
    case (Inr y)
    obtain l' b where y: "y = (l', b)" by (cases y)
    from Cons.prems acc pl Inr y
    have "process_lines e tok dry_run verbose ls (u @ [l'], c \<or> b, if b then n + 1 else n) w2 = (res, w1)"
      by simp
    from Cons.IH [OF this] fr show ?thesis by simp
  qed
qed

lemma finalize_update_dry_run:
  "finalize_update e p u changed n True backup verbose w =
     (None, if changed then w\<lparr>files_updated := files_updated w + 1,
                               total_changes := total_changes w + n\<rparr> else w)"
  by (simp add: finalize_update_def Let_def)

lemma uav_dry_run_frame:
  "files (snd (update_action_version e p tok True backup verbose w)) = files w
   \<and> dirs (snd (update_action_version e p tok True backup verbose w)) = dirs w"
proof (cases "read_file e p w")
  case (Inl x)
  then show ?thesis by (simp add: update_action_version_def file_handler_def emit_def)
next
  case (Inr ls)
  obtain r w1 where pl: "process_lines e tok True verbose ls ([], False, 0) w = (r, w1)"
    by (cases "process_lines e tok True verbose ls ([], False, 0) w")
  note fr = process_lines_frame [OF pl]
  show ?thesis
  proof (cases r)
    case (Inl x)
    with Inr pl fr show ?thesis by (simp add: update_action_version_def file_handler_def emit_def)
  next
    case Inr2: (Inr y)
    obtain u c n where y: "y = (u, c, n)" by (cases y) auto
    with Inr Inr2 pl fr show ?thesis
      by (simp add: update_action_version_def finalize_update_dry_run)
  qed
qed

lemma update_files_dry_run_frame:
  "files (snd (update_files e tok True backup verbose ps w)) = files w
   \<and> dirs (snd (update_files e tok True backup verbose ps w)) = dirs w"
proof (induction ps arbitrary: w)
  case Nil
  then show ?case by simp
next
  case (Cons p ps)
  let ?w2 = "(if verbose then emit (MsgCheckingFile p) w else w)
               \<lparr>total_files := total_files (if verbose then emit (MsgCheckingFile p) w else w) + 1\<rparr>"
  have w2: "files ?w2 = files w" "dirs ?w2 = dirs w" by (simp_all add: emit_def)
  obtain r w3 where u: "update_action_version e p tok True backup verbose ?w2 = (r, w3)"
    by (cases "update_action_version e p tok True backup verbose ?w2")
  from uav_dry_run_frame [of e p tok backup verbose ?w2] u w2
  have w3: "files w3 = files w" "dirs w3 = dirs w" by simp_all
  show ?case
  proof (cases r)
    case None
    with u w3 Cons.IH [of w3] show ?thesis by (simp add: Let_def)
  next
    case (Some x)
    with u w3 show ?thesis by (simp add: Let_def)
  qed
qed

section \<open>A dry run against the real run\<close>

lemma quiet_eqD: "quiet w = quiet w' \<Longrightarrow> w' = w\<lparr>out := out w'\<rparr>"
  by (cases w; cases w') (simp add: quiet_def)

lemma quiet_out [simp]: "quiet (w\<lparr>out := x\<rparr>) = quiet w"
  by (simp add: quiet_def)

lemma quiet_emit [simp]: "quiet (emit d w) = quiet w"
  by (simp add: quiet_def emit_def)

lemma glv_out:
  "fst (get_latest_version e owner repo tok verbose (w\<lparr>out := x\<rparr>))
     = fst (get_latest_version e owner repo tok verbose w)
   \<and> quiet (snd (get_latest_version e owner repo tok verbose (w\<lparr>out := x\<rparr>)))
     = quiet (snd (get_latest_version e owner repo tok verbose w))"
  by (simp add: resolver_defs quiet_def Let_def
      split: http_outcome.split option.split json_body.split list.split)

lemma glv_quiet:
  assumes "quiet w = quiet w'"
  shows "fst (get_latest_version e owner repo tok verbose w')
     = fst (get_latest_version e owner repo tok verbose w)
   \<and> quiet (snd (get_latest_version e owner repo tok verbose w'))
     = quiet (snd (get_latest_version e owner repo tok verbose w))"
  using glv_out [where w = w and x = "out w'"] quiet_eqD [OF assms] by simp


lemma process_line_dry_matches_real:
  assumes q: "quiet w = quiet w'"
    and real: "process_line e line tok False verbose w = (Inr (l', b), w1)"
  shows "fst (process_line e line tok True verbose w') = Inr (line, b)
     \<and> quiet (snd (process_line e line tok True verbose w')) = quiet w1"
proof (cases "re_search_ref line")
  case None
  with real q show ?thesis by (auto simp: process_line_def)
next
  case (Some g)
  obtain owner repo sha ver where g: "g = (owner, repo, sha, ver)" by (cases g) auto
  obtain r w2 where glv: "get_latest_version e owner repo tok verbose w = (r, w2)"
    by (cases "get_latest_version e owner repo tok verbose w")
  obtain r' w2' where glv': "get_latest_version e owner repo tok verbose w' = (r', w2')"
    by (cases "get_latest_version e owner repo tok verbose w'")
  from glv_quiet [OF q, of e owner repo tok verbose] glv glv'
  have same: "r' = r" "quiet w2' = quiet w2" by simp_all
  from real Some g glv obtain tag latest_sha where r: "r = Inr (Some (tag, latest_sha))"
    by (auto simp: process_line_def split: sum.splits option.splits)
  show ?thesis
  proof (cases "strip_v tag \<noteq> [] \<and> latest_sha \<noteq> []")
    case False
    with real Some g glv glv' r same show ?thesis
      by (auto simp: process_line_def Let_def)
  next
    case True
    from real Some g glv r True obtain gt where gt: "version_gt e (strip_v tag) ver = Inr gt"
      by (auto simp: process_line_def Let_def split: sum.splits)
    show ?thesis
    proof (cases gt)
      case False
      with real Some g glv glv' r same True gt show ?thesis
        by (auto simp: process_line_def Let_def)
    next
      case gtT: True
      from real Some g glv r True gt gtT
      have "b" and "quiet w1 = quiet w2"
        by (auto simp: process_line_def Let_def split: sum.splits if_splits)
      with Some g glv' r same True gt gtT show ?thesis
        by (simp add: process_line_def Let_def)
    qed
  qed
qed

lemma process_lines_dry_matches_real:
  "quiet w = quiet w' \<Longrightarrow>
   process_lines e tok False verbose ls (u0, c0, n0) w = (Inr (u, c, n), w1) \<Longrightarrow>
   fst (process_lines e tok True verbose ls (v0, c0, n0) w') = Inr (v0 @ ls, c, n)
     \<and> quiet (snd (process_lines e tok True verbose ls (v0, c0, n0) w')) = quiet w1"
proof (induction ls arbitrary: u0 v0 c0 n0 w w')
  case Nil
  then show ?case by simp
next
  case (Cons l ls)
  obtain r w2 where pl: "process_line e l tok False verbose w = (r, w2)"
    by (cases "process_line e l tok False verbose w")
  from Cons.prems(2) pl obtain l' b where r: "r = Inr (l', b)"
    by (cases r) auto
  obtain r' w2' where pl': "process_line e l tok True verbose w' = (r', w2')"
    by (cases "process_line e l tok True verbose w'")
  from process_line_dry_matches_real [OF Cons.prems(1) pl [unfolded r]] pl'
  have d: "r' = Inr (l, b)" "quiet w2 = quiet w2'" by simp_all
  from Cons.prems(2) pl r
  have rest: "process_lines e tok False verbose ls (u0 @ [l'], c0 \<or> b, if b then n0 + 1 else n0) w2
                = (Inr (u, c, n), w1)"
    by simp
  from Cons.IH [OF d(2) rest, of "v0 @ [l]"] pl' d show ?case by simp
qed

section \<open>The backup path\<close>

lemma rev_split: "rev (dropWhile P (rev xs)) @ rev (takeWhile P (rev xs)) = xs"
proof -
  have "rev (takeWhile P (rev xs) @ dropWhile P (rev xs)) = xs"
    by (simp only: takeWhile_dropWhile_id rev_rev_ident)
  then show ?thesis by (simp only: rev_append)
qed

lemma path_split:
  "\<exists>ss. p = dirname p @ ss @ basename p \<and> CHR ''b'' \<notin> set ss"
proof -
  define h where "h = rev (dropWhile (\<lambda>c. c \<noteq> CHR ''/'') (rev p))"
  define b where "b = basename p"
  define d where "d = dirname p"
  have p: "h @ b = p"
    unfolding h_def b_def basename_def by (rule rev_split)
  have "\<exists>ss. h = d @ ss \<and> CHR ''b'' \<notin> set ss"
  proof (cases "h \<noteq> [] \<and> (\<exists>c \<in> set h. c \<noteq> CHR ''/'')")
    case False
    then have "d = h" unfolding d_def dirname_def h_def [symmetric] by (auto simp: Let_def)
    then have "h = d @ [] \<and> CHR ''b'' \<notin> set []" by simp
    then show ?thesis by blast
  next
    case True
    define t where "t = rev (takeWhile (\<lambda>c. c = CHR ''/'') (rev h))"
    from True have "d = rev (dropWhile (\<lambda>c. c = CHR ''/'') (rev h))"
      unfolding d_def dirname_def h_def [symmetric] by (simp add: Let_def)
    then have "d @ t = h" unfolding t_def by (simp only: rev_split)
    moreover have "CHR ''b'' \<notin> set t"
      unfolding t_def by (auto dest: set_takeWhileD)
    ultimately have "h = d @ t \<and> CHR ''b'' \<notin> set t" by simp
    then show ?thesis by blast
  qed
  then obtain ss where "h = d @ ss" and nb: "CHR ''b'' \<notin> set ss" by blast
  with p have "p = d @ ss @ b" by simp
  with nb show ?thesis unfolding d_def b_def by blast
qed

lemma basename_no_slash: "CHR ''/'' \<notin> set (basename p)"
  by (auto simp: basename_def dest: set_takeWhileD)

lemma backup_path_shape:
  "\<exists>sep. backup_path_of p = dirname p @ sep @ ''backups/'' @ basename p"
proof -
  define b where "b = basename p"
  define d where "d = dirname p"
  have nb: "take 1 b \<noteq> ''/''"
    using basename_no_slash [of p] unfolding b_def by (cases "basename p") auto
  have "backup_path_of p = path_join (path_join d ''backups'') b"
    by (simp add: backup_path_of_def backup_dir_of_def d_def b_def)
  also have "\<dots> = path_join d ''backups'' @ ''/'' @ b"
    using nb by (simp add: path_join_def)
  finally have bp: "backup_path_of p = path_join d ''backups'' @ ''/'' @ b" .
  have "path_join d ''backups'' = d @ [] @ ''backups'' \<or> path_join d ''backups'' = d @ ''/'' @ ''backups''"
    by (simp add: path_join_def)
  then have "\<exists>sep. path_join d ''backups'' = d @ sep @ ''backups''" by blast
  then obtain sep where "path_join d ''backups'' = d @ sep @ ''backups''" by blast
  with bp have "backup_path_of p = d @ sep @ ''backups/'' @ b" by simp
  then show ?thesis unfolding d_def b_def by blast
qed

lemma backup_path_neq: "backup_path_of p \<noteq> p"
proof
  assume eq: "backup_path_of p = p"
  define b where "b = basename p"
  define d where "d = dirname p"
  obtain ss where p: "p = d @ ss @ b" and ss: "CHR ''b'' \<notin> set ss"
    using path_split [of p] unfolding d_def b_def by blast
  obtain sep where bp: "backup_path_of p = d @ sep @ ''backups/'' @ b"
    using backup_path_shape [of p] unfolding d_def b_def by blast
  from eq bp have "d @ sep @ ''backups/'' @ b = p" by simp
  also note p
  finally have "sep @ ''backups/'' = ss" by simp
  then have "CHR ''b'' \<in> set ss" by auto
  with ss show False by contradiction
qed

section \<open>Backup, write and the statistics\<close>

lemma create_backup_body_raises_OSError_only:
  "fst (create_backup_body e p verbose w) = Inl x \<Longrightarrow> x = OSError"
  by (auto simp: create_backup_body_def makedirs_def copyfile_def
      split: if_splits option.splits io_outcome.splits)

lemma create_backup_never_raises: "fst (create_backup e p verbose w) = None"
proof (cases "create_backup_body e p verbose w")
  case (Pair r w1)
  show ?thesis
  proof (cases r)
    case (Inl x)
    with Pair create_backup_body_raises_OSError_only [of e p verbose w x]
    show ?thesis by (simp add: create_backup_def)
  next
    case (Inr y)
    with Pair show ?thesis by (simp add: create_backup_def)
  qed
qed

lemma create_backup_stats:
  "files_updated (snd (create_backup e p verbose w)) = files_updated w
   \<and> total_changes (snd (create_backup e p verbose w)) = total_changes w
   \<and> total_files (snd (create_backup e p verbose w)) = total_files w"
  by (simp add: create_backup_def create_backup_body_def makedirs_def copyfile_def emit_def
      split: option.split io_outcome.split)


lemma create_backup_ok:
  assumes "files w p = Some content"
    and "\<not> makedirs_fails e (backup_dir_of p)" "backup_dir_of p \<notin> dom (files w)"
    and "copy_outcome e p (backup_path_of p) = Done"
  shows "files (snd (create_backup e p verbose w)) = (files w)(backup_path_of p \<mapsto> content)
    \<and> dirs (snd (create_backup e p verbose w)) = insert (backup_dir_of p) (dirs w)"
  using assms backup_path_neq [of p]
  by (auto simp: create_backup_def create_backup_body_def makedirs_def copyfile_def emit_def)


lemma write_file_effect:
  "fst (write_file e p u verbose w) = (if write_outcome e p = Done then Inr () else Inl OSError)
   \<and> files (snd (write_file e p u verbose w)) =
       (case write_outcome e p of
          Done \<Rightarrow> (files w)(p \<mapsto> concat u)
        | Refused \<Rightarrow> files w
        | Partial k \<Rightarrow> (files w)(p \<mapsto> take k (concat u))
        | PartialAtClose k \<Rightarrow> (files w)(p \<mapsto> take k (concat u)))
   \<and> dirs (snd (write_file e p u verbose w)) = dirs w
   \<and> files_updated (snd (write_file e p u verbose w)) = files_updated w
   \<and> total_changes (snd (write_file e p u verbose w)) = total_changes w
   \<and> total_files (snd (write_file e p u verbose w)) = total_files w"
  by (simp add: write_file_def emit_def Let_def split: io_outcome.split)

lemma finalize_update_real:
  "finalize_update e p u True n False backup verbose w =
     (None,
      if write_outcome e p = Done
      then snd (write_file e p u verbose
             (if backup
              then snd (create_backup e p verbose
                     (w\<lparr>files_updated := files_updated w + 1, total_changes := total_changes w + n\<rparr>))
              else w\<lparr>files_updated := files_updated w + 1, total_changes := total_changes w + n\<rparr>))
      else emit (MsgWriteError p)
             (snd (write_file e p u verbose
                (if backup
                 then snd (create_backup e p verbose
                        (w\<lparr>files_updated := files_updated w + 1, total_changes := total_changes w + n\<rparr>))
                 else w\<lparr>files_updated := files_updated w + 1, total_changes := total_changes w + n\<rparr>))))"
  by (simp add: finalize_update_def Let_def case_prod_unfold create_backup_never_raises
      write_file_effect)

lemma finalize_update_never_raises:
  "fst (finalize_update e p u changed n dry_run backup verbose w) = None"
proof (cases "changed \<and> \<not> dry_run")
  case True
  then show ?thesis by (simp add: finalize_update_real)
next
  case False
  then show ?thesis by (auto simp: finalize_update_def Let_def)
qed

lemma finalize_update_stats:
  "files_updated (snd (finalize_update e p u changed n dry_run backup verbose w))
     = files_updated w + (if changed then 1 else 0)
   \<and> total_changes (snd (finalize_update e p u changed n dry_run backup verbose w))
     = total_changes w + (if changed then n else 0)"
proof (cases "changed \<and> \<not> dry_run")
  case True
  then show ?thesis
    by (simp add: finalize_update_real write_file_effect create_backup_stats emit_def)
next
  case False
  then show ?thesis by (auto simp: finalize_update_def Let_def)
qed


lemma read_file_files: "files w' = files w \<Longrightarrow> read_file e p w' = read_file e p w"
  by (simp add: read_file_def)

section \<open>Backup before write\<close>

text \<open>
  Claim C7. Backup mode on, dry-run off, the file read, at least one line changed (the
  loop returns the updated lines \<open>u\<close> with \<open>changed = True\<close>), and no file operation
  failing: the run of \<open>update_action_version\<close> raises nothing; afterwards the sibling
  directory \<open>backups\<close> exists, the file in it under the same base name holds the original
  content, the original file holds the updated lines, and no other file has changed.
  The backup is made first: in the state after \<open>create_backup\<close> the original file still
  holds its content.
\<close>

theorem C7_backup_then_write:
  assumes orig: "files w p = Some content" and rd: "read_fault e p = None"
    and loop: "process_lines e tok False verbose (readlines content) ([], False, 0) w
                 = (Inr (u, True, n), w1)"
    and mk: "\<not> makedirs_fails e (backup_dir_of p)" "backup_dir_of p \<notin> dom (files w)"
    and cp: "copy_outcome e p (backup_path_of p) = Done"
    and wr: "write_outcome e p = Done"
  shows "fst (update_action_version e p tok False True verbose w) = None
    \<and> backup_dir_of p \<in> dirs (snd (update_action_version e p tok False True verbose w))
    \<and> files (snd (update_action_version e p tok False True verbose w)) (backup_path_of p)
        = Some content
    \<and> files (snd (update_action_version e p tok False True verbose w)) p = Some (concat u)
    \<and> files (snd (update_action_version e p tok False True verbose w))
        = (files w)(backup_path_of p \<mapsto> content, p \<mapsto> concat u)
    \<and> files (snd (create_backup e p verbose
                (w1\<lparr>files_updated := files_updated w1 + 1,
                    total_changes := total_changes w1 + n\<rparr>)))
        = (files w)(backup_path_of p \<mapsto> content)"
proof -
  define w2 where "w2 = w1\<lparr>files_updated := files_updated w1 + 1,
                           total_changes := total_changes w1 + n\<rparr>"
  have fr: "files w2 = files w" "dirs w2 = dirs w"
    using process_lines_frame [OF loop] by (simp_all add: w2_def)
  have cb: "files (snd (create_backup e p verbose w2)) = (files w)(backup_path_of p \<mapsto> content)"
    "dirs (snd (create_backup e p verbose w2)) = insert (backup_dir_of p) (dirs w)"
    using create_backup_ok [of w2 p content e verbose] orig mk cp fr by simp_all
  have rf: "read_file e p w = Inr (readlines content)"
    using orig rd by (simp add: read_file_def)
  have u: "update_action_version e p tok False True verbose w
             = (None, snd (write_file e p u verbose (snd (create_backup e p verbose w2))))"
    using rf loop wr
    by (simp add: update_action_version_def finalize_update_real w2_def)
  from u cb wr backup_path_neq [of p] show ?thesis
    unfolding w2_def by (simp add: write_file_effect)
qed


theorem C7_backup_then_write_witness:
  "files (snd (update_action_version (plain_env (\<lambda>n. tags_response ''v1.3.0'' ''cafebabe''))
            ''wf/ci.yml'' None False True False
            (start_world [''wf/ci.yml'' \<mapsto> ''uses: acme/tool@deadbeef # v1.2.0\<newline>''])))
     = [''wf/ci.yml'' \<mapsto> ''uses: acme/tool@deadbeef # v1.2.0\<newline>'',
        ''wf/backups/ci.yml'' \<mapsto> ''uses: acme/tool@deadbeef # v1.2.0\<newline>'',
        ''wf/ci.yml'' \<mapsto> ''uses: acme/tool@cafebabe # v1.3.0\<newline>'']"
proof -
  let ?e = "plain_env (\<lambda>n. tags_response ''v1.3.0'' ''cafebabe'')"
  let ?c = "''uses: acme/tool@deadbeef # v1.2.0\<newline>''"
  let ?w = "start_world [''wf/ci.yml'' \<mapsto> ?c]"
  let ?pl = "process_lines ?e None False False (readlines ?c) ([], False, 0) ?w"
  have f: "fst ?pl = Inr ([''uses: acme/tool@cafebabe # v1.3.0\<newline>''], True, 1)"
    by (simp add: readlines_def line_defs resolver_defs concrete_defs char_class_defs)
  then have loop: "?pl = (Inr ([''uses: acme/tool@cafebabe # v1.3.0\<newline>''], True, 1), snd ?pl)"
    by (simp add: prod_eq_iff)
  have bp: "backup_path_of ''wf/ci.yml'' = ''wf/backups/ci.yml''"
    and bd: "backup_dir_of ''wf/ci.yml'' = ''wf/backups''"
    by (simp_all add: backup_path_of_def backup_dir_of_def path_join_def dirname_def basename_def)
  have "files (snd (update_action_version ?e ''wf/ci.yml'' None False True False ?w))
        = (files ?w)(backup_path_of ''wf/ci.yml'' \<mapsto> ?c,
             ''wf/ci.yml'' \<mapsto> concat [''uses: acme/tool@cafebabe # v1.3.0\<newline>''])"
    using C7_backup_then_write [of ?w "''wf/ci.yml''" ?c ?e None False _ 1 "snd ?pl", OF _ _ loop]
    by (simp add: bd bp) (simp add: plain_env_def start_world_def)
  then show ?thesis by (simp add: bp start_world_def)
qed

section \<open>I/O failures\<close>




section \<open>Dry run\<close>

text \<open>
  Claim C6. In dry-run mode a run over any list of files, in any environment and from
  any state, leaves every file's content and the set of directories as they were (no
  file is rewritten, no backup file and no \<open>backups\<close> directory is created). And the
  statistics count the would-be changes: where the real run of a file reads it and its
  loop ends with \<open>changed = c\<close> and \<open>changes_made = n\<close>, the dry run of that file ends
  without an exception, adds one to files-updated when \<open>c\<close> holds and \<open>n\<close> to
  total-changes, and both counters end equal to those of the real run.
\<close>

theorem C6_dry_run_mutates_nothing:
  "files (snd (update_files e tok True backup verbose ps w)) = files w
   \<and> dirs (snd (update_files e tok True backup verbose ps w)) = dirs w
   \<and> (read_file e p w = Inr ls
        \<and> process_lines e tok False verbose ls ([], False, 0) w = (Inr (u, c, n), w1) \<longrightarrow>
        fst (update_action_version e p tok True backup verbose w) = None
        \<and> files_updated (snd (update_action_version e p tok True backup verbose w))
            = files_updated w + (if c then 1 else 0)
        \<and> total_changes (snd (update_action_version e p tok True backup verbose w))
            = total_changes w + (if c then n else 0)
        \<and> files_updated (snd (update_action_version e p tok True backup verbose w))
            = files_updated (snd (update_action_version e p tok False backup verbose w))
        \<and> total_changes (snd (update_action_version e p tok True backup verbose w))
            = total_changes (snd (update_action_version e p tok False backup verbose w)))"
proof (intro conjI impI)
  show "files (snd (update_files e tok True backup verbose ps w)) = files w"
    and "dirs (snd (update_files e tok True backup verbose ps w)) = dirs w"
    using update_files_dry_run_frame [of e tok backup verbose ps w] by simp_all
next
  assume a: "read_file e p w = Inr ls
        \<and> process_lines e tok False verbose ls ([], False, 0) w = (Inr (u, c, n), w1)"
  then have rf: "read_file e p w = Inr ls"
    and real: "process_lines e tok False verbose ls ([], False, 0) w = (Inr (u, c, n), w1)"
    by simp_all
  obtain r w1' where dry: "process_lines e tok True verbose ls ([], False, 0) w = (r, w1')"
    by (cases "process_lines e tok True verbose ls ([], False, 0) w")
  from process_lines_dry_matches_real [OF refl real, of "[]"] dry
  have r: "r = Inr (ls, c, n)" by simp
  from process_lines_frame [OF dry]
  have s1': "files_updated w1' = files_updated w" "total_changes w1' = total_changes w" by simp_all
  from process_lines_frame [OF real]
  have s1: "files_updated w1 = files_updated w" "total_changes w1 = total_changes w" by simp_all
  have ud: "update_action_version e p tok True backup verbose w
      = (None, snd (finalize_update e p ls c n True backup verbose w1'))"
    using rf dry r by (simp add: update_action_version_def finalize_update_dry_run)
  obtain w2 where fin: "finalize_update e p u c n False backup verbose w1 = (None, w2)"
    using finalize_update_never_raises [of e p u c n False backup verbose w1]
    by (cases "finalize_update e p u c n False backup verbose w1") simp
  have ur: "update_action_version e p tok False backup verbose w
      = (None, snd (finalize_update e p u c n False backup verbose w1))"
    using rf real fin by (simp add: update_action_version_def)
  show "fst (update_action_version e p tok True backup verbose w) = None"
    using ud by simp
  show "files_updated (snd (update_action_version e p tok True backup verbose w))
            = files_updated w + (if c then 1 else 0)"
    using ud s1' by (simp add: finalize_update_stats)
  show "total_changes (snd (update_action_version e p tok True backup verbose w))
            = total_changes w + (if c then n else 0)"
    using ud s1' by (simp add: finalize_update_stats)
  show "files_updated (snd (update_action_version e p tok True backup verbose w))
            = files_updated (snd (update_action_version e p tok False backup verbose w))"
    using ud ur s1 s1' by (simp add: finalize_update_stats)
  show "total_changes (snd (update_action_version e p tok True backup verbose w))
            = total_changes (snd (update_action_version e p tok False backup verbose w))"
    using ud ur s1 s1' by (simp add: finalize_update_stats)
qed

theorem C6_dry_run_mutates_nothing_witness:
  "files (snd (update_files (plain_env (\<lambda>n. tags_response ''v1.3.0'' ''cafebabe'')) None True True False
       [''ci.yml''] (start_world [''ci.yml'' \<mapsto> ''uses: acme/tool@deadbeef # v1.2.0\<newline>''])))
     = [''ci.yml'' \<mapsto> ''uses: acme/tool@deadbeef # v1.2.0\<newline>'']
   \<and> total_changes (snd (update_action_version (plain_env (\<lambda>n. tags_response ''v1.3.0'' ''cafebabe''))
        ''ci.yml'' None True True False
        (start_world [''ci.yml'' \<mapsto> ''uses: acme/tool@deadbeef # v1.2.0\<newline>''])))
     = 1"
proof -
  let ?e = "plain_env (\<lambda>n. tags_response ''v1.3.0'' ''cafebabe'')"
  let ?c = "''uses: acme/tool@deadbeef # v1.2.0\<newline>''"
  let ?w = "start_world [''ci.yml'' \<mapsto> ?c]"
  let ?pl = "process_lines ?e None False False (readlines ?c) ([], False, 0) ?w"
  have f: "fst ?pl = Inr ([''uses: acme/tool@cafebabe # v1.3.0\<newline>''], True, 1)"
    by (simp add: readlines_def line_defs resolver_defs concrete_defs char_class_defs)
  then have loop: "?pl = (Inr ([''uses: acme/tool@cafebabe # v1.3.0\<newline>''], True, 1), snd ?pl)"
    by (simp add: prod_eq_iff)
  have rf: "read_file ?e ''ci.yml'' ?w = Inr (readlines ?c)"
    by (simp add: read_file_def start_world_def plain_env_def)
  from C6_dry_run_mutates_nothing
         [where e = ?e and tok = None and backup = True and verbose = False
            and ps = "[''ci.yml'']" and w = ?w and p = "''ci.yml''" and ls = "readlines ?c"
            and u = "[''uses: acme/tool@cafebabe # v1.3.0\<newline>'']" and c = True and n = 1
            and ?w1.0 = "snd ?pl"]
    rf loop
  show ?thesis by (simp add: start_world_def)
qed

section \<open>The Version Cache\<close>
















section \<open>The patterns on the text of a reference\<close>

subsection \<open>Classes\<close>

lemma colon_in_no_class:
  "\<not> is_space (CHR '':'')" "\<not> is_name_char (CHR '':'')" "\<not> is_hex (CHR '':'')"
  "\<not> is_ver_char (CHR '':'')"
  by (simp_all add: char_class_defs)

lemma space_facts:
  "is_space c \<Longrightarrow> \<not> is_name_char c" "is_space c \<Longrightarrow> \<not> is_hex c"
  "is_space c \<Longrightarrow> \<not> is_ver_char c" "is_space c \<Longrightarrow> c \<noteq> CHR ''v''"
  "is_space c \<Longrightarrow> c \<noteq> CHR ''#''" "is_space c \<Longrightarrow> c \<noteq> CHR ''@''"
  by (auto simp: char_class_defs Let_def)

lemma name_char_facts:
  "is_name_char c \<Longrightarrow> \<not> is_space c" "is_name_char c \<Longrightarrow> c \<noteq> CHR ''/''"
  "is_name_char c \<Longrightarrow> c \<noteq> CHR ''@''" "is_name_char c \<Longrightarrow> c \<noteq> CHR ''#''"
  by (auto simp: char_class_defs Let_def)

lemma hex_facts:
  "is_hex c \<Longrightarrow> \<not> is_space c" "is_hex c \<Longrightarrow> c \<noteq> CHR ''@''" "is_hex c \<Longrightarrow> c \<noteq> CHR ''#''"
  by (auto simp: char_class_defs)

lemma ver_char_facts:
  "is_ver_char c \<Longrightarrow> \<not> is_space c" "is_ver_char c \<Longrightarrow> c \<noteq> CHR ''v''"
  "is_ver_char c \<Longrightarrow> c \<noteq> CHR ''V''" "is_ver_char c \<Longrightarrow> c \<noteq> CHR ''@''"
  "is_ver_char c \<Longrightarrow> c \<noteq> CHR ''#''"
  by (auto simp: char_class_defs)

subsection \<open>Runs\<close>

lemma stops_Nil [simp]: "stops P []"
  by (simp add: stops_def)

lemma stops_Cons [simp]: "stops P (c # s) = (\<not> P c)"
  by (simp add: stops_def)

lemma stops_append: "xs \<noteq> [] \<Longrightarrow> \<not> P (hd xs) \<Longrightarrow> stops P (xs @ ys)"
  by (cases xs) simp_all

lemma stops_run:
  "xs \<noteq> [] \<Longrightarrow> list_all Q xs \<Longrightarrow> (\<And>c. Q c \<Longrightarrow> \<not> P c) \<Longrightarrow> stops P (xs @ ys)"
  by (cases xs) simp_all

lemma run_take: "list_all P xs \<Longrightarrow> stops P ys \<Longrightarrow> takeWhile P (xs @ ys) = xs"
  by (induction xs) (auto simp: stops_def split: list.splits)

lemma run_drop: "list_all P xs \<Longrightarrow> stops P ys \<Longrightarrow> dropWhile P (xs @ ys) = ys"
  by (induction xs) (auto simp: stops_def split: list.splits)

lemma not_in_run: "list_all P xs \<Longrightarrow> \<not> P c \<Longrightarrow> c \<notin> set xs"
  by (auto simp: list_all_iff)

lemma uses_nth: "k < 4 \<Longrightarrow> (''uses:'' @ t) ! k \<noteq> CHR '':''"
proof -
  assume "k < 4"
  then consider "k = 0" | "k = 1" | "k = 2" | "k = 3" by linarith
  then show ?thesis by cases simp_all
qed

lemma no_directive_before:
  assumes "CHR '':'' \<notin> set xs" "xs \<noteq> []"
  shows "take 5 (xs @ ''uses:'' @ t) \<noteq> ''uses:''"
proof
  assume eq: "take 5 (xs @ ''uses:'' @ t) = ''uses:''"
  have "take 5 (xs @ ''uses:'' @ t) ! 4 = (xs @ ''uses:'' @ t) ! 4" by (rule nth_take) simp
  with eq have c: "(xs @ ''uses:'' @ t) ! 4 = CHR '':''" by simp
  show False
  proof (cases "4 < length xs")
    case True
    with c have "xs ! 4 = CHR '':''" by (simp add: nth_append)
    with True assms(1) show False by (metis nth_mem)
  next
    case False
    with c have "(''uses:'' @ t) ! (4 - length xs) = CHR '':''" by (simp add: nth_append)
    moreover from assms(2) have "4 - length xs < 4" by (cases xs) simp_all
    ultimately show False using uses_nth by blast
  qed
qed

lemma no_match_without_directive: "take 5 s \<noteq> ''uses:'' \<Longrightarrow> match_ref_here s = None"
  by (simp add: match_ref_here_def)

lemma match_needs_directive: "match_ref_here s = Some g \<Longrightarrow> take 5 s = ''uses:''"
  using no_match_without_directive [of s] by fastforce

lemma search_skip:
  "CHR '':'' \<notin> set xs \<Longrightarrow> re_search_ref (xs @ ''uses:'' @ t) = re_search_ref (''uses:'' @ t)"
proof (induction xs)
  case Nil
  then show ?case by simp
next
  case (Cons c cs)
  then have "take 5 ((c # cs) @ ''uses:'' @ t) \<noteq> ''uses:''"
    by (intro no_directive_before) simp_all
  then have "match_ref_here ((c # cs) @ ''uses:'' @ t) = None"
    by (rule no_match_without_directive)
  with Cons show ?case by simp
qed

lemma search_no_colon: "CHR '':'' \<notin> set s \<Longrightarrow> re_search_ref s = None"
proof (induction s)
  case Nil
  then show ?case by (simp add: match_ref_here_def)
next
  case (Cons c cs)
  have "match_ref_here (c # cs) = None"
  proof (cases "match_ref_here (c # cs)")
    case (Some g)
    from match_needs_directive [OF this] have "CHR '':'' \<in> set (take 5 (c # cs))" by simp
    then have "CHR '':'' \<in> set (c # cs)" by (rule in_set_takeD)
    with Cons.prems show ?thesis by simp
  qed simp
  with Cons show ?case by simp
qed

lemma search_after_failed_directive:
  assumes "match_ref_here (''uses:'' @ t) = None" "CHR '':'' \<notin> set t"
  shows "re_search_ref (''uses:'' @ t) = None"
proof -
  have "match_ref_here (''ses:'' @ t) = None" "match_ref_here (''es:'' @ t) = None"
    "match_ref_here (''s:'' @ t) = None" "match_ref_here ('':'' @ t) = None"
    by (simp_all add: match_ref_here_def)
  with assms search_no_colon [OF assms(2)] show ?thesis by simp
qed

lemma take1_ver: "ver \<noteq> [] \<Longrightarrow> list_all is_ver_char ver \<Longrightarrow> take 1 (ver @ rest) \<noteq> ''v''"
  by (cases ver) (auto dest: ver_char_facts(2))

lemma match_ref_upto_comment:
  assumes ws1: "ws1 \<noteq> []" "list_all is_space ws1"
    and owner: "owner \<noteq> []" "list_all is_name_char owner"
    and repo: "repo \<noteq> []" "list_all is_name_char repo"
    and sha: "sha \<noteq> []" "list_all is_hex sha"
    and ws2: "ws2 \<noteq> []" "list_all is_space ws2"
    and ws3: "list_all is_space ws3"
    and t7: "stops is_space t7"
  shows "match_ref_here (''uses:'' @ ws1 @ owner @ ''/'' @ repo @ ''@'' @ sha @ ws2 @ ''#'' @ ws3 @ t7)
     = (if takeWhile is_ver_char (if take 1 t7 = ''v'' then drop 1 t7 else t7) = [] then None
        else Some (owner, repo, sha,
                   takeWhile is_ver_char (if take 1 t7 = ''v'' then drop 1 t7 else t7)))"
proof -
  define t6w where "t6w = ws3 @ t7"
  define t6 where "t6 = ''#'' @ t6w"
  define t5 where "t5 = ws2 @ t6"
  define t4s where "t4s = sha @ t5"
  define t4 where "t4 = ''@'' @ t4s"
  define t3r where "t3r = repo @ t4"
  define t3 where "t3 = ''/'' @ t3r"
  define t2 where "t2 = owner @ t3"
  define t1 where "t1 = ws1 @ t2"
  define s where "s = ''uses:'' @ t1"
  have whole: "''uses:'' @ ws1 @ owner @ ''/'' @ repo @ ''@'' @ sha @ ws2 @ ''#'' @ ws3 @ t7 = s"
    by (simp add: s_def t1_def t2_def t3_def t3r_def t4_def t4s_def t5_def t6_def t6w_def)
  have f0: "take 5 s = ''uses:''" "drop 5 s = t1"
    by (simp_all add: s_def)
  have "stops is_space t2"
    unfolding t2_def using owner by (rule stops_run) (rule name_char_facts(1))
  with ws1(2) have f1: "takeWhile is_space t1 = ws1" "dropWhile is_space t1 = t2"
    unfolding t1_def by (rule run_take, rule run_drop)
  have "stops is_name_char t3" by (simp add: t3_def char_class_defs)
  with owner(2) have f2: "takeWhile is_name_char t2 = owner" "dropWhile is_name_char t2 = t3"
    unfolding t2_def by (rule run_take, rule run_drop)
  have f3: "take (Suc 0) t3 = ''/''" "drop (Suc 0) t3 = t3r" by (simp_all add: t3_def)
  have "stops is_name_char t4" by (simp add: t4_def char_class_defs)
  with repo(2) have f4: "takeWhile is_name_char t3r = repo" "dropWhile is_name_char t3r = t4"
    unfolding t3r_def by (rule run_take, rule run_drop)
  have f5: "take (Suc 0) t4 = ''@''" "drop (Suc 0) t4 = t4s" by (simp_all add: t4_def)
  have "stops is_hex t5"
    unfolding t5_def using ws2 by (rule stops_run) (rule space_facts(2))
  with sha(2) have f6: "takeWhile is_hex t4s = sha" "dropWhile is_hex t4s = t5"
    unfolding t4s_def by (rule run_take, rule run_drop)
  have "stops is_space t6" by (simp add: t6_def char_class_defs)
  with ws2(2) have f7: "takeWhile is_space t5 = ws2" "dropWhile is_space t5 = t6"
    unfolding t5_def by (rule run_take, rule run_drop)
  have f8: "take (Suc 0) t6 = ''#''" "drop (Suc 0) t6 = t6w" by (simp_all add: t6_def)
  from ws3 t7 have f9: "dropWhile is_space t6w = t7"
    unfolding t6w_def by (rule run_drop)
  show ?thesis
    unfolding whole match_ref_here_def
    by (simp add: Let_def f0 f1 f2 f3 f4 f5 f6 f7 f8 f9 ws1 owner repo sha ws2)
qed

lemma match_ref_text:
  assumes parts: "ref_parts ws1 owner repo sha ws2 ws3 ver"
    and rest: "stops is_ver_char rest"
    and pre: "pre = [] \<or> pre = ''v''"
  shows "match_ref_here (ref_text ws1 owner repo sha ws2 ws3 pre ver @ rest)
           = Some (owner, repo, sha, ver)"
proof -
  from parts have p: "ws1 \<noteq> []" "list_all is_space ws1"
    "owner \<noteq> []" "list_all is_name_char owner"
    "repo \<noteq> []" "list_all is_name_char repo"
    "sha \<noteq> []" "list_all is_hex sha"
    "ws2 \<noteq> []" "list_all is_space ws2"
    "list_all is_space ws3"
    and ver: "ver \<noteq> []" "list_all is_ver_char ver"
    by (simp_all add: ref_parts_def)
  define t7 where "t7 = pre @ ver @ rest"
  have st7: "stops is_space t7"
  proof (cases "pre = []")
    case True
    have "stops is_space (ver @ rest)"
      using ver by (rule stops_run) (rule ver_char_facts(1))
    with True show ?thesis by (simp add: t7_def)
  next
    case False
    with pre have "pre = ''v''" by simp
    then show ?thesis by (simp add: t7_def char_class_defs)
  qed
  have s7: "(if take 1 t7 = ''v'' then drop 1 t7 else t7) = ver @ rest"
    unfolding t7_def using pre take1_ver [OF ver, of rest] by auto
  have s8: "takeWhile is_ver_char (ver @ rest) = ver"
    using ver(2) rest by (rule run_take)
  have "ref_text ws1 owner repo sha ws2 ws3 pre ver @ rest
      = ''uses:'' @ ws1 @ owner @ ''/'' @ repo @ ''@'' @ sha @ ws2 @ ''#'' @ ws3 @ t7"
    by (simp add: ref_text_def t7_def)
  also have "match_ref_here \<dots> = Some (owner, repo, sha, ver)"
    unfolding match_ref_upto_comment [OF p st7] s7 s8 using ver(1) by simp
  finally show ?thesis .
qed

lemma match_ref_text_uppercase:
  assumes parts: "ref_parts ws1 owner repo sha ws2 ws3 ver"
  shows "match_ref_here (ref_text ws1 owner repo sha ws2 ws3 ''V'' ver @ rest) = None"
proof -
  from parts have p: "ws1 \<noteq> []" "list_all is_space ws1"
    "owner \<noteq> []" "list_all is_name_char owner"
    "repo \<noteq> []" "list_all is_name_char repo"
    "sha \<noteq> []" "list_all is_hex sha"
    "ws2 \<noteq> []" "list_all is_space ws2"
    "list_all is_space ws3"
    by (simp_all add: ref_parts_def)
  define t7 where "t7 = ''V'' @ ver @ rest"
  have st7: "stops is_space t7" by (simp add: t7_def char_class_defs)
  have s7: "(if take 1 t7 = ''v'' then drop 1 t7 else t7) = t7"
    by (simp add: t7_def)
  have s8: "takeWhile is_ver_char t7 = []"
    by (simp add: t7_def char_class_defs)
  have "ref_text ws1 owner repo sha ws2 ws3 ''V'' ver @ rest
      = ''uses:'' @ ws1 @ owner @ ''/'' @ repo @ ''@'' @ sha @ ws2 @ ''#'' @ ws3 @ t7"
    by (simp add: ref_text_def t7_def)
  also have "match_ref_here \<dots> = None"
    unfolding match_ref_upto_comment [OF p st7] s7 s8 by simp
  finally show ?thesis .
qed

lemma search_hit: "match_ref_here s = Some g \<Longrightarrow> re_search_ref s = Some g"
  by (cases s) simp_all

lemma ref_text_directive:
  "ref_text ws1 owner repo sha ws2 ws3 pre ver @ rest
     = ''uses:'' @ (ws1 @ owner @ ''/'' @ repo @ ''@'' @ sha @ ws2 @ ''#'' @ ws3 @ pre @ ver @ rest)"
  by (simp add: ref_text_def)

lemma search_ref_text:
  assumes "ref_parts ws1 owner repo sha ws2 ws3 ver" "stops is_ver_char rest"
    and "pre = [] \<or> pre = ''v''" and "CHR '':'' \<notin> set indent"
  shows "re_search_ref (indent @ ref_text ws1 owner repo sha ws2 ws3 pre ver @ rest)
           = Some (owner, repo, sha, ver)"
proof -
  have "re_search_ref (ref_text ws1 owner repo sha ws2 ws3 pre ver @ rest)
          = Some (owner, repo, sha, ver)"
    using match_ref_text [OF assms(1-3)] by (rule search_hit)
  then show ?thesis
    unfolding ref_text_directive using search_skip [OF assms(4)] by simp
qed

lemma search_ref_text_uppercase:
  assumes parts: "ref_parts ws1 owner repo sha ws2 ws3 ver"
    and "CHR '':'' \<notin> set indent" "CHR '':'' \<notin> set rest"
  shows "re_search_ref (indent @ ref_text ws1 owner repo sha ws2 ws3 ''V'' ver @ rest) = None"
proof -
  let ?t = "ws1 @ owner @ ''/'' @ repo @ ''@'' @ sha @ ws2 @ ''#'' @ ws3 @ ''V'' @ ver @ rest"
  from parts have "CHR '':'' \<notin> set ws1" "CHR '':'' \<notin> set owner" "CHR '':'' \<notin> set repo"
    "CHR '':'' \<notin> set sha" "CHR '':'' \<notin> set ws2" "CHR '':'' \<notin> set ws3" "CHR '':'' \<notin> set ver"
    using colon_in_no_class by (auto simp: ref_parts_def list_all_iff)
  with assms(3) have nc: "CHR '':'' \<notin> set ?t" by simp
  have "match_ref_here (''uses:'' @ ?t) = None"
    using match_ref_text_uppercase [OF parts, of rest] unfolding ref_text_directive .
  from search_after_failed_directive [OF this nc]
  show ?thesis
    unfolding ref_text_directive using search_skip [OF assms(2)] by simp
qed

lemma takeWhile_stop: "stops P ys \<Longrightarrow> takeWhile P (xs @ ys) = takeWhile P xs"
  by (induction xs) (auto simp: stops_def split: list.splits)

lemma dropWhile_stop: "stops P ys \<Longrightarrow> dropWhile P (xs @ ys) = dropWhile P xs @ ys"
  by (induction xs) (auto simp: stops_def split: list.splits)

subsection \<open>The hash substitution\<close>

lemma sub_sha_skip: "CHR ''@'' \<notin> set xs \<Longrightarrow> re_sub_sha f (xs @ ys) = xs @ re_sub_sha f ys"
  by (induction xs) auto

lemma sub_sha_hit:
  "hs \<noteq> [] \<Longrightarrow> list_all is_hex hs \<Longrightarrow> stops is_hex ys \<Longrightarrow>
   re_sub_sha f (CHR ''@'' # hs @ ys) = f [hs] @ re_sub_sha f ys"
  by (simp add: run_take run_drop)

lemma sub_sha_append:
  "stops is_hex ys \<Longrightarrow> re_sub_sha f (xs @ ys) = re_sub_sha f xs @ re_sub_sha f ys"
proof (induction f xs rule: re_sub_sha.induct)
  case (1 f)
  then show ?case by simp
next
  case (2 f c cs)
  then show ?case by (simp add: takeWhile_stop dropWhile_stop)
qed

lemma sub_sha_head:
  "\<exists>t. re_sub_sha (\<lambda>_. CHR ''@'' # r) (c # cs) = c # t"
  by simp

lemma sub_sha_stops:
  "stops P s \<Longrightarrow> stops P (re_sub_sha (\<lambda>_. CHR ''@'' # r) s)"
proof (cases s)
  case Nil
  then show ?thesis by simp
next
  case (Cons c cs)
  assume "stops P s"
  with Cons have "\<not> P c" by simp
  moreover obtain t where "re_sub_sha (\<lambda>_. CHR ''@'' # r) (c # cs) = c # t"
    using sub_sha_head by blast
  ultimately show ?thesis using Cons by simp
qed

lemma sub_sha_avoids:
  "x \<notin> set s \<Longrightarrow> x \<notin> set r \<Longrightarrow> x \<notin> set (re_sub_sha (\<lambda>_. r) s)"
proof (induction "\<lambda>_ :: string list. r" s rule: re_sub_sha.induct)
  case 1
  then show ?case by simp
next
  case (2 c cs)
  then show ?case by (auto dest: set_dropWhileD)
qed

subsection \<open>The version-comment substitution\<close>

lemma sub_ver_skip: "CHR ''#'' \<notin> set xs \<Longrightarrow> re_sub_ver g (xs @ ys) = xs @ re_sub_ver g ys"
  by (induction xs) auto

lemma ver_tail_comment:
  assumes "list_all is_space ws" "pre = [] \<or> pre = ''v''" "ver \<noteq> []" "list_all is_ver_char ver"
  shows "ver_tail (ws @ pre @ ver @ ys) = ver @ ys"
proof -
  have "stops is_space (pre @ ver @ ys)"
  proof (cases "pre = []")
    case True
    have "stops is_space (ver @ ys)"
      using assms(3,4) by (rule stops_run) (rule ver_char_facts(1))
    with True show ?thesis by simp
  next
    case False
    with assms(2) have "pre = ''v''" by simp
    then show ?thesis by (simp add: char_class_defs)
  qed
  with assms(1) have "dropWhile is_space (ws @ pre @ ver @ ys) = pre @ ver @ ys"
    by (rule run_drop)
  then show ?thesis
    using assms(2) take1_ver [OF assms(3,4), of ys] by (auto simp: ver_tail_def)
qed

lemma sub_ver_hit:
  assumes "list_all is_space ws" "pre = [] \<or> pre = ''v''" "ver \<noteq> []" "list_all is_ver_char ver"
    and "stops is_ver_char ys"
  shows "re_sub_ver g (CHR ''#'' # ws @ pre @ ver @ ys) = g [] @ re_sub_ver g ys"
  using assms(3)
  by (simp add: ver_tail_comment [OF assms(1-4)] run_take [OF assms(4,5)] run_drop [OF assms(4,5)])

text \<open>A text that starts with none of the characters the pattern can continue with.\<close>

lemma ver_tail_append:
  assumes "stops is_space ys" "take 1 ys \<noteq> ''v''"
  shows "ver_tail (cs @ ys) = ver_tail cs @ ys"
proof -
  define d where "d = dropWhile is_space cs"
  have dy: "dropWhile is_space (cs @ ys) = d @ ys"
    unfolding d_def using assms(1) by (rule dropWhile_stop)
  have "(if take 1 (d @ ys) = ''v'' then drop 1 (d @ ys) else d @ ys)
      = (if take 1 d = ''v'' then drop 1 d else d) @ ys"
    using assms(2) by (cases d) simp_all
  then show ?thesis
    unfolding ver_tail_def Let_def dy d_def [symmetric] .
qed

lemma sub_ver_append:
  assumes "stops is_space ys" "take 1 ys \<noteq> ''v''" "stops is_ver_char ys"
  shows "re_sub_ver g (xs @ ys) = re_sub_ver g xs @ re_sub_ver g ys"
  using assms
proof (induction g xs rule: re_sub_ver.induct)
  case (1 g)
  then show ?case by simp
next
  case (2 g c cs)
  then show ?case by (simp add: ver_tail_append takeWhile_stop dropWhile_stop)
qed

lemma sub_ver_stops:
  "stops P s \<Longrightarrow> stops P (re_sub_ver (\<lambda>_. CHR ''#'' # r) s)"
proof (cases s)
  case Nil
  then show ?thesis by simp
next
  case (Cons c cs)
  assume "stops P s"
  with Cons have "\<not> P c" by simp
  moreover have "\<exists>t. re_sub_ver (\<lambda>_. CHR ''#'' # r) (c # cs) = c # t" by simp
  ultimately show ?thesis using Cons by auto
qed

lemma set_ver_tail: "x \<in> set (ver_tail cs) \<Longrightarrow> x \<in> set cs"
  by (auto simp: ver_tail_def Let_def dest: set_dropWhileD in_set_dropD split: if_splits)

lemma sub_ver_avoids:
  "x \<notin> set s \<Longrightarrow> x \<notin> set r \<Longrightarrow> x \<notin> set (re_sub_ver (\<lambda>_. r) s)"
proof (induction "\<lambda>_ :: string list. r" s rule: re_sub_ver.induct)
  case 1
  then show ?case by simp
next
  case (2 c cs)
  then show ?case by (auto dest: set_dropWhileD set_ver_tail)
qed

lemma at_hash_in_no_class:
  "\<not> is_space (CHR ''@'')" "\<not> is_name_char (CHR ''@'')" "\<not> is_hex (CHR ''@'')"
  "\<not> is_ver_char (CHR ''@'')"
  "\<not> is_space (CHR ''#'')" "\<not> is_name_char (CHR ''#'')" "\<not> is_hex (CHR ''#'')"
  "\<not> is_ver_char (CHR ''#'')"
  by (simp_all add: char_class_defs)

lemma rewrite_ref_text:
  assumes parts: "ref_parts ws1 owner repo sha ws2 ws3 ver"
    and pre: "pre = [] \<or> pre = ''v''"
    and rest: "stops is_ver_char rest"
    and new: "list_all is_hex new_sha"
  shows "re_sub_ver (\<lambda>_. CHR ''#'' # r)
           (re_sub_sha (\<lambda>_. CHR ''@'' # new_sha)
              (indent @ ref_text ws1 owner repo sha ws2 ws3 pre ver @ rest))
     = re_sub_ver (\<lambda>_. CHR ''#'' # r) (re_sub_sha (\<lambda>_. CHR ''@'' # new_sha) indent)
       @ ''uses:'' @ ws1 @ owner @ ''/'' @ repo @ ''@'' @ new_sha @ ws2 @ (CHR ''#'' # r)
       @ re_sub_ver (\<lambda>_. CHR ''#'' # r) (re_sub_sha (\<lambda>_. CHR ''@'' # new_sha) rest)"
proof -
  let ?F = "\<lambda>_ :: string list. CHR ''@'' # new_sha"
  let ?G = "\<lambda>_ :: string list. CHR ''#'' # r"
  from parts have ws1: "ws1 \<noteq> []" "list_all is_space ws1"
    and owner: "owner \<noteq> []" "list_all is_name_char owner"
    and repo: "repo \<noteq> []" "list_all is_name_char repo"
    and sha: "sha \<noteq> []" "list_all is_hex sha"
    and ws2: "ws2 \<noteq> []" "list_all is_space ws2"
    and ws3: "list_all is_space ws3"
    and ver: "ver \<noteq> []" "list_all is_ver_char ver"
    by (simp_all add: ref_parts_def)
  define head where "head = ''uses:'' @ ws1 @ owner @ ''/'' @ repo"
  define X where "X = ws2 @ ''#'' @ ws3 @ pre @ ver @ rest"
  define R1 where "R1 = re_sub_sha ?F rest"
  have line: "indent @ ref_text ws1 owner repo sha ws2 ws3 pre ver @ rest
                = indent @ head @ CHR ''@'' # sha @ X"
    by (simp add: ref_text_def head_def X_def)
  have no_at_head: "CHR ''@'' \<notin> set head"
    using not_in_run [OF ws1(2) at_hash_in_no_class(1)] not_in_run [OF owner(2) at_hash_in_no_class(2)]
      not_in_run [OF repo(2) at_hash_in_no_class(2)]
    by (simp add: head_def)
  have no_hash_head: "CHR ''#'' \<notin> set head"
    using not_in_run [OF ws1(2) at_hash_in_no_class(5)] not_in_run [OF owner(2) at_hash_in_no_class(6)]
      not_in_run [OF repo(2) at_hash_in_no_class(6)]
    by (simp add: head_def)
  have "CHR ''@'' \<notin> set pre" using pre by auto
  then have no_at_mid: "CHR ''@'' \<notin> set (ws2 @ ''#'' @ ws3 @ pre @ ver)"
    using not_in_run [OF ws2(2) at_hash_in_no_class(1)] not_in_run [OF ws3 at_hash_in_no_class(1)]
      not_in_run [OF ver(2) at_hash_in_no_class(4)]
    by simp
  have no_hash_mid: "CHR ''#'' \<notin> set (CHR ''@'' # new_sha @ ws2)"
    using not_in_run [OF new at_hash_in_no_class(7)] not_in_run [OF ws2(2) at_hash_in_no_class(5)]
    by simp
  have stX: "stops is_hex X"
    unfolding X_def using ws2 by (rule stops_run) (rule space_facts(2))
  have st_head: "stops is_hex (head @ t)" "stops is_space (head @ t)"
    "stops is_ver_char (head @ t)" "take 1 (head @ t) \<noteq> ''v''" for t
    by (simp_all add: head_def char_class_defs)
  have "re_sub_sha ?F (indent @ head @ CHR ''@'' # sha @ X)
      = re_sub_sha ?F indent @ re_sub_sha ?F (head @ CHR ''@'' # sha @ X)"
    using st_head(1) by (rule sub_sha_append)
  also have "re_sub_sha ?F (head @ CHR ''@'' # sha @ X) = head @ re_sub_sha ?F (CHR ''@'' # sha @ X)"
    using no_at_head by (rule sub_sha_skip)
  also have "re_sub_sha ?F (CHR ''@'' # sha @ X) = (CHR ''@'' # new_sha) @ re_sub_sha ?F X"
    using sha stX by (rule sub_sha_hit)
  also have "re_sub_sha ?F X = (ws2 @ ''#'' @ ws3 @ pre @ ver) @ R1"
    unfolding X_def R1_def using sub_sha_skip [OF no_at_mid, of ?F rest] by simp
  finally have step1: "re_sub_sha ?F (indent @ head @ CHR ''@'' # sha @ X)
      = re_sub_sha ?F indent @ head @ (CHR ''@'' # new_sha @ ws2) @ CHR ''#'' # ws3 @ pre @ ver @ R1"
    by simp
  have stR1: "stops is_ver_char R1"
    unfolding R1_def using rest by (rule sub_sha_stops)
  have "re_sub_ver ?G (re_sub_sha ?F indent @ head @ (CHR ''@'' # new_sha @ ws2) @ CHR ''#'' # ws3 @ pre @ ver @ R1)
      = re_sub_ver ?G (re_sub_sha ?F indent)
        @ re_sub_ver ?G (head @ (CHR ''@'' # new_sha @ ws2) @ CHR ''#'' # ws3 @ pre @ ver @ R1)"
    using st_head(2,4,3) by (rule sub_ver_append)
  also have "re_sub_ver ?G (head @ (CHR ''@'' # new_sha @ ws2) @ CHR ''#'' # ws3 @ pre @ ver @ R1)
      = head @ re_sub_ver ?G ((CHR ''@'' # new_sha @ ws2) @ CHR ''#'' # ws3 @ pre @ ver @ R1)"
    using no_hash_head by (rule sub_ver_skip)
  also have "re_sub_ver ?G ((CHR ''@'' # new_sha @ ws2) @ CHR ''#'' # ws3 @ pre @ ver @ R1)
      = (CHR ''@'' # new_sha @ ws2) @ re_sub_ver ?G (CHR ''#'' # ws3 @ pre @ ver @ R1)"
    using no_hash_mid by (rule sub_ver_skip)
  also have "re_sub_ver ?G (CHR ''#'' # ws3 @ pre @ ver @ R1) = (CHR ''#'' # r) @ re_sub_ver ?G R1"
    using ws3 pre ver stR1 by (rule sub_ver_hit)
  finally show ?thesis
    unfolding line step1 by (simp add: head_def R1_def)
qed

subsection \<open>A reference line whose pair is in the cache\<close>

lemma backslash_in_no_class:
  "\<not> is_hex (CHR 0x5C)" "\<not> is_ver_char (CHR 0x5C)"
  by (simp_all add: char_class_defs)

lemma literal_templates:
  assumes "list_all is_hex new_sha" "list_all is_ver_char lv"
  shows "expand_template e n (''@'' @ new_sha) = Inr (\<lambda>_. CHR ''@'' # new_sha)"
    and "expand_template e m (''# v'' @ lv) = Inr (\<lambda>_. CHR ''#'' # '' v'' @ lv)"
  using not_in_run [OF assms(1) backslash_in_no_class(1)]
    not_in_run [OF assms(2) backslash_in_no_class(2)]
  by (simp_all add: expand_template_def)

lemma process_line_cache_hit:
  assumes "re_search_ref line = Some (owner, repo, sha, ver)"
    and "version_cache w (owner, repo) = Some (tag, new_sha)" "\<not> rate_limit_exceeded w"
    and "new_sha \<noteq> []" "strip_v tag \<noteq> []"
  shows "process_line e line tok False verbose w =
     (case version_gt e (strip_v tag) ver of
        Inl x \<Rightarrow> (Inl x, w)
      | Inr False \<Rightarrow> (Inr (line, False), w)
      | Inr True \<Rightarrow>
          (case expand_template e 1 (''@'' @ new_sha) of
             Inl x \<Rightarrow> (Inl x, if verbose then emit (MsgFoundUpdate owner repo ver (strip_v tag)) w else w)
           | Inr f \<Rightarrow>
               (case expand_template e 0 (''# v'' @ strip_v tag) of
                  Inl x \<Rightarrow> (Inl x, if verbose then emit (MsgFoundUpdate owner repo ver (strip_v tag)) w else w)
                | Inr g \<Rightarrow> (Inr (re_sub_ver g (re_sub_sha f line), True),
                            if verbose then emit (MsgFoundUpdate owner repo ver (strip_v tag)) w else w))))"
  using assms
  by (simp add: process_line_def glv_cache_hit [OF assms(3,2)] Let_def
      split: sum.split bool.split)

lemma reference_line_settles:
  assumes parts: "ref_parts ws1 owner repo sha ws2 ws3 ver"
    and pre: "pre = [] \<or> pre = ''v''"
    and indent: "CHR '':'' \<notin> set indent"
    and rest: "stops is_ver_char rest"
    and cache: "version_cache w (owner, repo) = Some (tag, new_sha)" "\<not> rate_limit_exceeded w"
    and good: "new_sha \<noteq> []" "list_all is_hex new_sha"
      "strip_v tag \<noteq> []" "list_all is_ver_char (strip_v tag)"
    and lib: "version_gt e (strip_v tag) (strip_v tag) = Inr False"
    and first: "process_line e (indent @ ref_text ws1 owner repo sha ws2 ws3 pre ver @ rest)
                  tok False verbose w = (Inr (line', changed), w1)"
  shows "quiet w1 = quiet w
    \<and> (line' = indent @ ref_text ws1 owner repo sha ws2 ws3 pre ver @ rest
       \<or> line' = re_sub_ver (\<lambda>_. CHR ''#'' # '' v'' @ strip_v tag)
                   (re_sub_sha (\<lambda>_. CHR ''@'' # new_sha)
                      (indent @ ref_text ws1 owner repo sha ws2 ws3 pre ver @ rest)))
    \<and> (\<forall>w2. version_cache w2 (owner, repo) = Some (tag, new_sha) \<and> \<not> rate_limit_exceeded w2 \<longrightarrow>
          process_line e line' tok' False verbose' w2 = (Inr (line', False), w2))"
proof -
  define line where "line = indent @ ref_text ws1 owner repo sha ws2 ws3 pre ver @ rest"
  define lv where "lv = strip_v tag"
  let ?F = "\<lambda>_ :: string list. CHR ''@'' # new_sha"
  let ?G = "\<lambda>_ :: string list. CHR ''#'' # '' v'' @ lv"
  have found: "re_search_ref line = Some (owner, repo, sha, ver)"
    unfolding line_def using parts rest pre indent by (rule search_ref_text)
  note tm = literal_templates [OF good(2) good(4) [folded lv_def]]
  note first' = first [folded line_def, unfolded process_line_cache_hit [OF found cache good(1,3)],
      folded lv_def, unfolded tm]
  show ?thesis
  proof (cases "version_gt e lv ver")
    case (Inl x)
    with first' show ?thesis by simp
  next
    case (Inr gt)
    show ?thesis
    proof (cases gt)
      case False
      with Inr first' have l: "line' = line" "w1 = w" by simp_all
      have "process_line e line tok' False verbose' w2 = (Inr (line, False), w2)"
        if "version_cache w2 (owner, repo) = Some (tag, new_sha)" "\<not> rate_limit_exceeded w2" for w2
        using process_line_cache_hit [OF found that good(1,3), of e tok' verbose'] Inr False
        by (simp add: lv_def)
      with l show ?thesis by (simp add: line_def)
    next
      case True
      with Inr first' have l: "line' = re_sub_ver ?G (re_sub_sha ?F line)"
        and w1: "quiet w1 = quiet w" by (auto split: if_splits)
      define I2 where "I2 = re_sub_ver ?G (re_sub_sha ?F indent)"
      define R2 where "R2 = re_sub_ver ?G (re_sub_sha ?F rest)"
      have shape: "line' = I2 @ ref_text ws1 owner repo new_sha ws2 '' '' ''v'' lv @ R2"
        unfolding l line_def rewrite_ref_text [OF parts pre rest good(2)]
        by (simp add: ref_text_def I2_def R2_def)
      have parts': "ref_parts ws1 owner repo new_sha ws2 '' '' lv"
        using parts good by (simp add: ref_parts_def lv_def char_class_defs)
      have "stops is_ver_char (re_sub_sha ?F rest)" using rest by (rule sub_sha_stops)
      then have rest': "stops is_ver_char R2" unfolding R2_def by (rule sub_ver_stops)
      have "CHR '':'' \<notin> set (CHR ''@'' # new_sha)"
        using not_in_run [OF good(2) colon_in_no_class(3)] by simp
      with indent have "CHR '':'' \<notin> set (re_sub_sha ?F indent)" by (rule sub_sha_avoids)
      moreover have "CHR '':'' \<notin> set (CHR ''#'' # '' v'' @ lv)"
        using not_in_run [OF good(4) colon_in_no_class(4)] by (simp add: lv_def)
      ultimately have indent': "CHR '':'' \<notin> set I2" unfolding I2_def by (rule sub_ver_avoids)
      have found': "re_search_ref line' = Some (owner, repo, new_sha, lv)"
        unfolding shape using parts' rest' _ indent' by (rule search_ref_text) simp
      have "process_line e line' tok' False verbose' w2 = (Inr (line', False), w2)"
        if "version_cache w2 (owner, repo) = Some (tag, new_sha)" "\<not> rate_limit_exceeded w2" for w2
        using process_line_cache_hit [OF found' that good(1,3), of e tok' verbose'] lib
        by (simp add: lv_def)
      with w1 l show ?thesis by (simp add: line_def lv_def)
    qed
  qed
qed

text \<open>
  Claim C9, amended. The matcher is case-sensitive for the prefix of the version
  comment. On a line that consists of some text without a colon, the text of a reference
  and a rest that does not continue the version, the reference is found and its four
  parts are extracted when the comment is written \<open># v<version>\<close> or \<open># <version>\<close>;
  when it is written \<open># V<version>\<close> (and the rest has no colon either) nothing is
  found, and \<open>process_line\<close> returns the line unchanged without calling the resolver.
\<close>

theorem C9_prefix_is_case_sensitive:
  assumes "ref_parts ws1 owner repo sha ws2 ws3 ver"
    and "CHR '':'' \<notin> set indent" and "stops is_ver_char rest"
  shows "re_search_ref (indent @ ref_text ws1 owner repo sha ws2 ws3 ''v'' ver @ rest)
           = Some (owner, repo, sha, ver)
    \<and> re_search_ref (indent @ ref_text ws1 owner repo sha ws2 ws3 [] ver @ rest)
           = Some (owner, repo, sha, ver)
    \<and> (CHR '':'' \<notin> set rest \<longrightarrow>
         re_search_ref (indent @ ref_text ws1 owner repo sha ws2 ws3 ''V'' ver @ rest) = None
         \<and> process_line e (indent @ ref_text ws1 owner repo sha ws2 ws3 ''V'' ver @ rest)
               tok dry_run verbose w
             = (Inr (indent @ ref_text ws1 owner repo sha ws2 ws3 ''V'' ver @ rest, False), w))"
proof (intro conjI impI)
  show "re_search_ref (indent @ ref_text ws1 owner repo sha ws2 ws3 ''v'' ver @ rest)
           = Some (owner, repo, sha, ver)"
    using assms(1) assms(3) _ assms(2) by (rule search_ref_text) simp
  show "re_search_ref (indent @ ref_text ws1 owner repo sha ws2 ws3 [] ver @ rest)
           = Some (owner, repo, sha, ver)"
    using assms(1) assms(3) _ assms(2) by (rule search_ref_text) simp
next
  assume "CHR '':'' \<notin> set rest"
  with assms(1,2)
  show n: "re_search_ref (indent @ ref_text ws1 owner repo sha ws2 ws3 ''V'' ver @ rest) = None"
    by (rule search_ref_text_uppercase)
  then show "process_line e (indent @ ref_text ws1 owner repo sha ws2 ws3 ''V'' ver @ rest)
               tok dry_run verbose w
             = (Inr (indent @ ref_text ws1 owner repo sha ws2 ws3 ''V'' ver @ rest, False), w)"
    by (simp add: process_line_def)
qed

theorem C9_prefix_is_case_sensitive_witness:
  "re_search_ref ''  - uses: actions/checkout@abc123 # v3.1\<newline>''
     = Some (''actions'', ''checkout'', ''abc123'', ''3.1'')
   \<and> re_search_ref ''  - uses: actions/checkout@abc123 # 3.1\<newline>''
     = Some (''actions'', ''checkout'', ''abc123'', ''3.1'')
   \<and> re_search_ref ''  - uses: actions/checkout@abc123 # V3.1\<newline>'' = None"
  using C9_prefix_is_case_sensitive
    [of "'' ''" "''actions''" "''checkout''" "''abc123''" "'' ''" "'' ''" "''3.1''" "''  - ''"
        "''\<newline>''"]
  by (simp add: ref_parts_def ref_text_def char_class_defs)

section \<open>Lines of a file\<close>

subsection \<open>Reading lines back\<close>

lemma universal_newlines_id: "CHR 0x0D \<notin> set s \<Longrightarrow> universal_newlines s = s"
  by (induction s rule: universal_newlines.induct) auto

lemma universal_newlines_no_cr: "CHR 0x0D \<notin> set (universal_newlines s)"
  by (induction s rule: universal_newlines.induct) auto

lemma split_lines_run:
  "CHR 0x0A \<notin> set b \<Longrightarrow>
   split_lines cur (b @ CHR 0x0A # t) = (cur @ b @ [CHR 0x0A]) # split_lines [] t"
  by (induction b arbitrary: cur) auto

lemma split_lines_no_lf:
  "CHR 0x0A \<notin> set u \<Longrightarrow> split_lines cur u = (if cur @ u = [] then [] else [cur @ u])"
  by (induction u arbitrary: cur) auto

lemma line_ok_cases:
  assumes "line_ok l"
  obtains (terminated) b where "l = b @ [CHR 0x0A]" "CHR 0x0A \<notin> set b" "CHR 0x0D \<notin> set b"
  | (open_end) "CHR 0x0A \<notin> set l" "l \<noteq> []" "CHR 0x0D \<notin> set l"
proof (cases "last l = CHR 0x0A")
  case True
  from assms have ne: "l \<noteq> []" by (simp add: line_ok_def)
  then have "l = butlast l @ [last l]" by simp
  with True have l: "l = butlast l @ [CHR 0x0A]" by simp
  moreover from assms have "CHR 0x0A \<notin> set (butlast l)" by (simp add: line_ok_def)
  moreover from assms have "CHR 0x0D \<notin> set (butlast l)"
    by (auto simp: line_ok_def dest: in_set_butlastD)
  ultimately show ?thesis by (rule terminated)
next
  case False
  from assms have ne: "l \<noteq> []" and nb: "CHR 0x0A \<notin> set (butlast l)" and cr: "CHR 0x0D \<notin> set l"
    by (simp_all add: line_ok_def)
  from ne have "set l = insert (last l) (set (butlast l))"
    by (metis append_butlast_last_id list.simps(15) rotate1.simps(2) set_rotate1)
  with False nb have "CHR 0x0A \<notin> set l" by auto
  then show ?thesis using ne cr by (rule open_end)
qed

lemma split_lines_concat:
  "lines_ok ls \<Longrightarrow> split_lines [] (concat ls) = ls"
proof (induction ls)
  case Nil
  then show ?case by simp
next
  case (Cons l ls)
  then have ok: "line_ok l" and nxt: "ls \<noteq> [] \<longrightarrow> last l = CHR 0x0A" and rest: "lines_ok ls"
    by simp_all
  from ok show ?case
  proof (cases rule: line_ok_cases)
    case (terminated b)
    with Cons.IH [OF rest] show ?thesis by (simp add: split_lines_run)
  next
    case open_end
    then have "last l \<noteq> CHR 0x0A" using last_in_set by metis
    with nxt have "ls = []" by blast
    with open_end show ?thesis by (simp add: split_lines_no_lf)
  qed
qed

lemma lines_ok_no_cr: "lines_ok ls \<Longrightarrow> CHR 0x0D \<notin> set (concat ls)"
  by (induction ls) (auto simp: line_ok_def)

lemma readlines_concat:
  assumes "lines_ok ls"
  shows "readlines (concat ls) = ls"
proof -
  have "universal_newlines (concat ls) = concat ls"
    using lines_ok_no_cr [OF assms] by (rule universal_newlines_id)
  with split_lines_concat [OF assms] show ?thesis by (simp add: readlines_def)
qed

lemma split_lines_ok:
  "CHR 0x0D \<notin> set s \<Longrightarrow> CHR 0x0D \<notin> set cur \<Longrightarrow> CHR 0x0A \<notin> set cur \<Longrightarrow>
   lines_ok (split_lines cur s)"
proof (induction s arbitrary: cur)
  case Nil
  then show ?case by (auto simp: line_ok_def dest: in_set_butlastD)
next
  case (Cons c cs)
  show ?case
  proof (cases "c = CHR 0x0A")
    case True
    with Cons.prems Cons.IH [of "[]"] show ?thesis by (simp add: line_ok_def)
  next
    case False
    with Cons.prems Cons.IH [of "cur @ [c]"] show ?thesis by simp
  qed
qed

lemma readlines_ok: "lines_ok (readlines content)"
  using split_lines_ok [of "universal_newlines content" "[]"] universal_newlines_no_cr
  by (simp add: readlines_def)

subsection \<open>The substitutions keep the line structure\<close>

lemma lf_cr_in_no_class:
  "\<not> is_hex (CHR 0x0A)" "\<not> is_ver_char (CHR 0x0A)" "is_space (CHR 0x0A)"
  "\<not> is_hex (CHR 0x0D)" "\<not> is_ver_char (CHR 0x0D)"
  by (simp_all add: char_class_defs)

lemma sub_sha_lf: "re_sub_sha f (b @ [CHR 0x0A]) = re_sub_sha f b @ [CHR 0x0A]"
proof -
  have "stops is_hex [CHR 0x0A]" by (simp add: lf_cr_in_no_class)
  then have "re_sub_sha f (b @ [CHR 0x0A]) = re_sub_sha f b @ re_sub_sha f [CHR 0x0A]"
    by (rule sub_sha_append)
  then show ?thesis by simp
qed

lemma dropWhile_space_lf:
  "dropWhile is_space (cs @ [CHR 0x0A])
     = (if dropWhile is_space cs = [] then [] else dropWhile is_space cs @ [CHR 0x0A])"
  by (induction cs) (simp_all add: lf_cr_in_no_class)

lemma ver_tail_Nil:
  assumes "dropWhile is_space cs = []"
  shows "ver_tail cs = []"
  unfolding ver_tail_def Let_def assms by simp

lemma ver_tail_lf:
  "ver_tail (cs @ [CHR 0x0A])
     = (if dropWhile is_space cs = [] then [] else ver_tail cs @ [CHR 0x0A])"
proof (cases "dropWhile is_space cs")
  case Nil
  have "ver_tail (cs @ [CHR 0x0A]) = []"
    unfolding ver_tail_def Let_def dropWhile_space_lf Nil by simp
  with Nil show ?thesis by simp
next
  case (Cons d ds)
  have "ver_tail (cs @ [CHR 0x0A]) = ver_tail cs @ [CHR 0x0A]"
    unfolding ver_tail_def Let_def dropWhile_space_lf Cons by simp
  with Cons show ?thesis by simp
qed

lemma takeWhile_ver_tail_lf:
  "takeWhile is_ver_char (ver_tail (cs @ [CHR 0x0A])) = takeWhile is_ver_char (ver_tail cs)"
proof -
  have "stops is_ver_char [CHR 0x0A]" by (simp add: lf_cr_in_no_class)
  then have "takeWhile is_ver_char (ver_tail cs @ [CHR 0x0A]) = takeWhile is_ver_char (ver_tail cs)"
    by (rule takeWhile_stop)
  then show ?thesis by (simp add: ver_tail_lf ver_tail_Nil)
qed

lemma dropWhile_ver_tail_lf:
  assumes "takeWhile is_ver_char (ver_tail cs) \<noteq> []"
  shows "dropWhile is_ver_char (ver_tail (cs @ [CHR 0x0A]))
           = dropWhile is_ver_char (ver_tail cs) @ [CHR 0x0A]"
proof -
  from assms have "ver_tail cs \<noteq> []" by auto
  then have "dropWhile is_space cs \<noteq> []" using ver_tail_Nil by blast
  then have "ver_tail (cs @ [CHR 0x0A]) = ver_tail cs @ [CHR 0x0A]" by (simp add: ver_tail_lf)
  moreover have "stops is_ver_char [CHR 0x0A]" by (simp add: lf_cr_in_no_class)
  ultimately show ?thesis by (simp add: dropWhile_stop)
qed

lemma sub_ver_lf: "re_sub_ver g (b @ [CHR 0x0A]) = re_sub_ver g b @ [CHR 0x0A]"
proof (induction g b rule: re_sub_ver.induct)
  case (1 g)
  then show ?case by simp
next
  case (2 g c cs)
  show ?case
  proof (cases "c = CHR ''#'' \<and> takeWhile is_ver_char (ver_tail cs) \<noteq> []")
    case True
    with 2 show ?thesis by (simp add: takeWhile_ver_tail_lf dropWhile_ver_tail_lf)
  next
    case False
    with 2 show ?thesis by (auto simp: takeWhile_ver_tail_lf)
  qed
qed

lemma sub_sha_Nil_iff: "re_sub_sha (\<lambda>_. CHR ''@'' # r) s = [] \<longleftrightarrow> s = []"
  by (cases s) simp_all

lemma sub_ver_Nil_iff: "re_sub_ver (\<lambda>_. CHR ''#'' # r) s = [] \<longleftrightarrow> s = []"
  by (cases s) simp_all

lemma sub_line_ok:
  assumes ok: "line_ok l"
    and r1: "CHR 0x0A \<notin> set r1" "CHR 0x0D \<notin> set r1"
    and r2: "CHR 0x0A \<notin> set r2" "CHR 0x0D \<notin> set r2"
  shows "line_ok (re_sub_ver (\<lambda>_. CHR ''#'' # r2) (re_sub_sha (\<lambda>_. CHR ''@'' # r1) l))
    \<and> (last l = CHR 0x0A \<longrightarrow>
         last (re_sub_ver (\<lambda>_. CHR ''#'' # r2) (re_sub_sha (\<lambda>_. CHR ''@'' # r1) l)) = CHR 0x0A)"
proof -
  let ?F = "\<lambda>_ :: string list. CHR ''@'' # r1"
  let ?G = "\<lambda>_ :: string list. CHR ''#'' # r2"
  have keep: "x \<notin> set (re_sub_ver ?G (re_sub_sha ?F s))"
    if "x \<notin> set s" "x \<notin> set (CHR ''@'' # r1)" "x \<notin> set (CHR ''#'' # r2)" for x s
    using that by (intro sub_ver_avoids sub_sha_avoids)
  from ok show ?thesis
  proof (cases rule: line_ok_cases)
    case (terminated b)
    have eq: "re_sub_ver ?G (re_sub_sha ?F l) = re_sub_ver ?G (re_sub_sha ?F b) @ [CHR 0x0A]"
      by (simp add: terminated(1) sub_sha_lf sub_ver_lf)
    have "CHR 0x0A \<notin> set (re_sub_ver ?G (re_sub_sha ?F b))"
      using terminated(2) r1(1) r2(1) by (intro keep) simp_all
    moreover have "CHR 0x0D \<notin> set (re_sub_ver ?G (re_sub_sha ?F b))"
      using terminated(3) r1(2) r2(2) by (intro keep) simp_all
    ultimately show ?thesis by (simp add: eq line_ok_def)
  next
    case open_end
    have a: "CHR 0x0A \<notin> set (re_sub_ver ?G (re_sub_sha ?F l))"
      using open_end(1) r1(1) r2(1) by (intro keep) simp_all
    have b: "CHR 0x0D \<notin> set (re_sub_ver ?G (re_sub_sha ?F l))"
      using open_end(3) r1(2) r2(2) by (intro keep) simp_all
    have c: "re_sub_ver ?G (re_sub_sha ?F l) \<noteq> []"
      using open_end(2) by (simp add: sub_ver_Nil_iff sub_sha_Nil_iff)
    from open_end have "last l \<noteq> CHR 0x0A" using last_in_set by metis
    with a b c show ?thesis by (auto simp: line_ok_def dest: in_set_butlastD)
  qed
qed

subsection \<open>Two passes over the lines of a file\<close>

lemma quiet_fields:
  assumes "quiet w' = quiet w"
  shows "version_cache w' = version_cache w" "rate_limit_exceeded w' = rate_limit_exceeded w"
    "files w' = files w"
proof -
  from quiet_eqD [OF assms] have eq: "w = w'\<lparr>out := out w\<rparr>" .
  have "version_cache (w'\<lparr>out := out w\<rparr>) = version_cache w'"
    "rate_limit_exceeded (w'\<lparr>out := out w\<rparr>) = rate_limit_exceeded w'"
    "files (w'\<lparr>out := out w\<rparr>) = files w'" by simp_all
  with eq show "version_cache w' = version_cache w" "rate_limit_exceeded w' = rate_limit_exceeded w"
    "files w' = files w"
    by simp_all
qed

lemma known_line_cache:
  assumes "version_cache w' = version_cache w"
  shows "known_line e w' = known_line e w"
  by (rule ext) (simp add: known_line_def resolved_def assms)

lemma settled_cache:
  assumes "version_cache w' = version_cache w"
  shows "settled e w' = settled e w"
  by (rule ext) (simp add: settled_def assms)

lemma known_line_settles:
  assumes known: "known_line e w line" and flag: "\<not> rate_limit_exceeded w"
    and first: "process_line e line tok False verbose w = (Inr (line', changed), w1)"
  shows "quiet w1 = quiet w \<and> settled e w line'
    \<and> (line_ok line \<longrightarrow> line_ok line' \<and> (last line = CHR 0x0A \<longrightarrow> last line' = CHR 0x0A))"
proof (cases "re_search_ref line")
  case None
  with first have "line' = line" "w1 = w" by (simp_all add: process_line_def)
  with None show ?thesis by (simp add: settled_def process_line_def)
next
  case (Some g)
  with known obtain owner repo where rl: "reference_line line owner repo"
    and rs: "resolved e w owner repo" by (auto simp: known_line_def)
  from rl obtain indent ws1 sha ws2 ws3 pre ver rest where
    line: "line = indent @ ref_text ws1 owner repo sha ws2 ws3 pre ver @ rest"
    and parts: "ref_parts ws1 owner repo sha ws2 ws3 ver"
    and pre: "pre = [] \<or> pre = ''v''"
    and indent: "CHR '':'' \<notin> set indent"
    and rest: "stops is_ver_char rest"
    unfolding reference_line_def by blast
  from rs obtain tag new_sha where
    cache: "version_cache w (owner, repo) = Some (tag, new_sha)"
    and good: "new_sha \<noteq> []" "list_all is_hex new_sha"
      "strip_v tag \<noteq> []" "list_all is_ver_char (strip_v tag)"
    and lib: "version_gt e (strip_v tag) (strip_v tag) = Inr False"
    unfolding resolved_def by blast
  note rls = reference_line_settles [OF parts pre indent rest cache flag good lib first [unfolded line]]
  from rls have q: "quiet w1 = quiet w" by simp
  have "process_line e line' tok' False verbose' w2 = (Inr (line', False), w2)"
    if "version_cache w2 = version_cache w \<and> \<not> rate_limit_exceeded w2" for tok' verbose' w2
  proof -
    from that cache
    have "version_cache w2 (owner, repo) = Some (tag, new_sha) \<and> \<not> rate_limit_exceeded w2"
      by simp
    with rls [of tok' verbose'] show ?thesis by blast
  qed
  then have again: "settled e w line'" by (simp add: settled_def)
  from rls have form: "line' = line
     \<or> line' = re_sub_ver (\<lambda>_. CHR ''#'' # '' v'' @ strip_v tag)
                 (re_sub_sha (\<lambda>_. CHR ''@'' # new_sha) line)"
    unfolding line by simp
  have keep: "line_ok line' \<and> (last line = CHR 0x0A \<longrightarrow> last line' = CHR 0x0A)" if ok: "line_ok line"
  proof -
    have r1: "CHR 0x0A \<notin> set new_sha" "CHR 0x0D \<notin> set new_sha"
      using not_in_run [OF good(2) lf_cr_in_no_class(1)] not_in_run [OF good(2) lf_cr_in_no_class(4)]
      by simp_all
    have r2: "CHR 0x0A \<notin> set ('' v'' @ strip_v tag)" "CHR 0x0D \<notin> set ('' v'' @ strip_v tag)"
      using not_in_run [OF good(4) lf_cr_in_no_class(2)] not_in_run [OF good(4) lf_cr_in_no_class(5)]
      by simp_all
    from form sub_line_ok [OF ok r1 r2] ok show ?thesis by auto
  qed
  from q again keep show ?thesis by simp
qed

lemma second_pass:
  "list_all (settled e w) ls \<Longrightarrow> version_cache w2 = version_cache w \<Longrightarrow> \<not> rate_limit_exceeded w2 \<Longrightarrow>
   process_lines e tok False verbose ls (u0, c0, n0) w2 = (Inr (u0 @ ls, c0, n0), w2)"
proof (induction ls arbitrary: u0)
  case Nil
  then show ?case by simp
next
  case (Cons l ls)
  from Cons.prems have "process_line e l tok False verbose w2 = (Inr (l, False), w2)"
    by (simp add: settled_def)
  moreover from Cons.prems have "list_all (settled e w) ls" by simp
  ultimately show ?case using Cons.IH [of "u0 @ [l]"] Cons.prems(2,3) by simp
qed

lemma first_pass:
  "list_all (known_line e w) ls \<Longrightarrow> \<not> rate_limit_exceeded w \<Longrightarrow>
   process_lines e tok False verbose ls (u0, c0, n0) w = (Inr (u, c, n), w1) \<Longrightarrow>
   quiet w1 = quiet w
   \<and> (\<exists>ls'. u = u0 @ ls' \<and> list_all (settled e w) ls'
         \<and> list_all2 (\<lambda>l l'. line_ok l \<longrightarrow> line_ok l' \<and> (last l = CHR 0x0A \<longrightarrow> last l' = CHR 0x0A))
              ls ls')"
proof (induction ls arbitrary: u0 c0 n0 w)
  case Nil
  then show ?case by simp
next
  case (Cons l ls)
  let ?K = "\<lambda>l l'. line_ok l \<longrightarrow> line_ok l' \<and> (last l = CHR 0x0A \<longrightarrow> last l' = CHR 0x0A)"
  obtain r w' where pl: "process_line e l tok False verbose w = (r, w')"
    by (cases "process_line e l tok False verbose w")
  with Cons.prems(3) obtain l' b where r: "r = Inr (l', b)" by (cases r) auto
  from Cons.prems(1) have kl: "known_line e w l" and kls: "list_all (known_line e w) ls" by simp_all
  from known_line_settles [OF kl Cons.prems(2) pl [unfolded r]]
  have q: "quiet w' = quiet w" and s: "settled e w l'" and k: "?K l l'" by simp_all
  note qf = quiet_fields [OF q]
  from kls have kls': "list_all (known_line e w') ls"
    unfolding known_line_cache [OF qf(1)] .
  from qf(2) Cons.prems(2) have flag': "\<not> rate_limit_exceeded w'" by simp
  from Cons.prems(3) pl r
  have loop: "process_lines e tok False verbose ls (u0 @ [l'], c0 \<or> b, if b then n0 + 1 else n0) w'
                = (Inr (u, c, n), w1)" by simp
  from Cons.IH [OF kls' flag' loop] obtain ls' where
    q1: "quiet w1 = quiet w'" and u: "u = (u0 @ [l']) @ ls'" and st: "list_all (settled e w') ls'"
    and ks: "list_all2 ?K ls ls'"
    by blast
  from st have "list_all (settled e w) ls'" unfolding settled_cache [OF qf(1)] .
  with s have a: "list_all (settled e w) (l' # ls')" by simp
  from u have b: "u = u0 @ (l' # ls')" by simp
  from k ks have c: "list_all2 ?K (l # ls) (l' # ls')" by simp
  from q q1 have "quiet w1 = quiet w" by simp
  with a b c show ?case by blast
qed

lemma lines_ok_kept:
  "list_all2 (\<lambda>l l'. line_ok l \<longrightarrow> line_ok l' \<and> (last l = CHR 0x0A \<longrightarrow> last l' = CHR 0x0A)) ls ls'
   \<Longrightarrow> lines_ok ls \<Longrightarrow> lines_ok ls'"
proof (induction rule: list_all2_induct)
  case Nil
  then show ?case by simp
next
  case (Cons l ls l' ls')
  from Cons.hyps(2) have "length ls = length ls'" by (rule list_all2_lengthD)
  then have "ls' \<noteq> [] \<longleftrightarrow> ls \<noteq> []" by auto
  with Cons show ?case by auto
qed

lemma process_line_unchanged:
  "process_line e line tok dry_run verbose w = (Inr (line', False), w1) \<Longrightarrow> line' = line"
  by (auto simp: process_line_def Let_def split: option.splits prod.splits sum.splits bool.splits if_splits)

lemma process_lines_unchanged:
  "process_lines e tok dry_run verbose ls (u0, c0, n0) w = (Inr (u, False, n), w1) \<Longrightarrow> u = u0 @ ls"
proof (induction ls arbitrary: u0 c0 n0 w)
  case Nil
  then show ?case by simp
next
  case (Cons l ls)
  obtain r w' where pl: "process_line e l tok dry_run verbose w = (r, w')"
    by (cases "process_line e l tok dry_run verbose w")
  with Cons.prems obtain l' b where r: "r = Inr (l', b)" by (cases r) auto
  from Cons.prems pl r
  have loop: "process_lines e tok dry_run verbose ls (u0 @ [l'], c0 \<or> b, if b then n0 + 1 else n0) w'
                = (Inr (u, False, n), w1)" by simp
  from Cons.IH [OF loop] have u: "u = (u0 @ [l']) @ ls" .
  have "\<not> (c0 \<or> b)"
  proof
    assume "c0 \<or> b"
    moreover have "process_lines e tok dry_run verbose ls' (a, True, m) w0 = (Inr (u', c', n'), w0') \<Longrightarrow> c'"
      for ls' a m w0 u' c' n' w0'
    proof (induction ls' arbitrary: a m w0)
      case Nil
      then show ?case by simp
    next
      case (Cons k ks)
      then show ?case
        by (auto split: prod.splits sum.splits)
    qed
    ultimately show False using loop by auto
  qed
  then have "b = False" by simp
  with pl r process_line_unchanged [of e l tok dry_run verbose w l' w'] have "l' = l" by simp
  with u show ?case by simp
qed

lemma create_backup_cache:
  "version_cache (snd (create_backup e p verbose w)) = version_cache w
   \<and> rate_limit_exceeded (snd (create_backup e p verbose w)) = rate_limit_exceeded w"
  by (simp add: create_backup_def create_backup_body_def makedirs_def copyfile_def emit_def
      split: option.split io_outcome.split)

lemma write_file_cache:
  "version_cache (snd (write_file e p u verbose w)) = version_cache w
   \<and> rate_limit_exceeded (snd (write_file e p u verbose w)) = rate_limit_exceeded w"
  by (simp add: write_file_def emit_def Let_def split: io_outcome.split)

section \<open>Idempotence\<close>

text \<open>
  Where the tags are plain dotted numbers, a second run changes nothing. Dry-run off;
  the file is read and written without failure; the guard is clear; every line of the
  file either holds no reference or is a reference line whose (owner, repository) pair
  is in the cache with a lowercase hexadecimal hash and a tag that is a dotted number
  after its leading \<open>v\<close>; and the loop of the first run ends with the lines \<open>ls'\<close>. Then
  the second run reads exactly the lines \<open>ls'\<close>, its loop returns them unchanged with
  \<open>changed = False\<close> and \<open>changes_made = 0\<close>, and the run leaves the whole state (files,
  cache, counters, printed lines) as the first run left it.
\<close>

lemma second_run_changes_nothing_plain_tags:
  assumes content: "files w p = Some content" and rd: "read_fault e p = None"
    and wr: "write_outcome e p = Done"
    and flag: "\<not> rate_limit_exceeded w"
    and known: "list_all (known_line e w) (readlines content)"
    and first: "process_lines e tok False verbose (readlines content) ([], False, 0) w
                  = (Inr (ls', c, n), w1)"
  shows "read_file e p (snd (update_action_version e p tok False backup verbose w)) = Inr ls'
    \<and> process_lines e tok' False verbose' ls' ([], False, 0)
           (snd (update_action_version e p tok False backup verbose w))
         = (Inr (ls', False, 0), snd (update_action_version e p tok False backup verbose w))
    \<and> update_action_version e p tok' False backup' verbose'
           (snd (update_action_version e p tok False backup verbose w))
         = (None, snd (update_action_version e p tok False backup verbose w))"
proof -
  define W where "W = snd (update_action_version e p tok False backup verbose w)"
  have rf: "read_file e p w = Inr (readlines content)"
    using content rd by (simp add: read_file_def)
  from first_pass [OF known flag first] obtain ls2 where
    q: "quiet w1 = quiet w" and ls2: "ls' = [] @ ls2" and st: "list_all (settled e w) ls2"
    and ks: "list_all2 (\<lambda>l l'. line_ok l \<longrightarrow> line_ok l' \<and> (last l = CHR 0x0A \<longrightarrow> last l' = CHR 0x0A))
               (readlines content) ls2"
    by blast
  from ls2 have ls2': "ls2 = ls'" by simp
  note qf = quiet_fields [OF q]
  have ok: "lines_ok ls'"
    using lines_ok_kept [OF ks readlines_ok] ls2' by simp
  obtain w2 where fin: "finalize_update e p ls' c n False backup verbose w1 = (None, w2)"
    using finalize_update_never_raises [of e p ls' c n False backup verbose w1]
    by (cases "finalize_update e p ls' c n False backup verbose w1") simp
  have W: "W = w2"
    using rf first fin by (simp add: W_def update_action_version_def)
  have state: "version_cache W = version_cache w \<and> \<not> rate_limit_exceeded W
      \<and> read_file e p W = Inr ls'"
  proof (cases c)
    case True
    define B where "B = (if backup
             then snd (create_backup e p verbose
                        (w1\<lparr>files_updated := files_updated w1 + 1,
                              total_changes := total_changes w1 + n\<rparr>))
             else w1\<lparr>files_updated := files_updated w1 + 1,
                       total_changes := total_changes w1 + n\<rparr>)"
    from fin True wr have "snd (write_file e p ls' verbose B) = w2"
      by (simp add: finalize_update_real B_def)
    with W have Weq: "W = snd (write_file e p ls' verbose B)" by simp
    have B: "version_cache B = version_cache w1" "rate_limit_exceeded B = rate_limit_exceeded w1"
      by (simp_all add: B_def create_backup_cache)
    have "version_cache W = version_cache w" "\<not> rate_limit_exceeded W"
      unfolding Weq using B qf flag by (simp_all add: write_file_cache)
    moreover have "files W p = Some (concat ls')"
      unfolding Weq using wr by (simp add: write_file_effect)
    then have "read_file e p W = Inr ls'"
      using rd by (simp add: read_file_def readlines_concat [OF ok])
    ultimately show ?thesis by simp
  next
    case False
    with fin W have "W = w1" by (simp add: finalize_update_def)
    moreover from False first have "ls' = readlines content"
      using process_lines_unchanged [of e tok False verbose "readlines content" "[]" False 0 w ls' n w1]
      by simp
    ultimately show ?thesis using qf flag rf read_file_files [OF qf(3), of e p] by simp
  qed
  then have cache: "version_cache W = version_cache w" and flagW: "\<not> rate_limit_exceeded W"
    and read2: "read_file e p W = Inr ls'" by simp_all
  have pass2: "process_lines e tok' False verbose' ls' ([], False, 0) W = (Inr (ls', False, 0), W)"
    using second_pass [OF st [unfolded ls2'] cache flagW, of tok' verbose' "[]" False 0] by simp
  have "update_action_version e p tok' False backup' verbose' W = (None, W)"
    using read2 pass2 by (simp add: update_action_version_def finalize_update_def)
  with read2 pass2 show ?thesis unfolding W_def by simp
qed

text \<open>
  Claim C4 (a second run in succession, with the cache holding the same results,
  changes no line: each line rewritten by the first run compares as not newer and is
  left byte-identical) is broken by the code where the latest tag has a suffix after
  its dotted number. With the latest tag \<open>v1.3.0-1\<close>, the first run rewrites the
  reference to \<open>@cafebabe # v1.3.0-1\<close>. In the second run the pattern reads the version
  of that comment as \<open>1.3.0\<close> (the class \<open>[\d.]+\<close> stops at the hyphen), the latest
  version \<open>1.3.0-1\<close> compares as newer, and the substitution replaces \<open># v1.3.0\<close> and
  keeps the rest: the line becomes \<open>@cafebabe # v1.3.0-1-1\<close>, the file is written again
  and the counters count one more change. One request was sent in all.
\<close>

theorem C4_second_run_rewrites_again:
  "update_files ((plain_env (\<lambda>n. tags_response ''v1.3.0-1'' ''cafebabe''))\<lparr>version_gt := post_release_gt\<rparr>)
       None False False False [''ci.yml'']
       (start_world [''ci.yml'' \<mapsto> ''uses: acme/tool@deadbeef # v1.2.0\<newline>''])
     = (None,
        (start_world [''ci.yml'' \<mapsto> ''uses: acme/tool@cafebabe # v1.3.0-1\<newline>''])
          \<lparr>version_cache := [(''acme'', ''tool'') \<mapsto> (''v1.3.0-1'', ''cafebabe'')],
           requests := [(''acme'', ''tool'')],
           total_files := 1, files_updated := 1, total_changes := 1\<rparr>)
   \<and> process_line ((plain_env (\<lambda>n. tags_response ''v1.3.0-1'' ''cafebabe''))\<lparr>version_gt := post_release_gt\<rparr>)
       ''uses: acme/tool@cafebabe # v1.3.0-1\<newline>'' None False False
       ((start_world [''ci.yml'' \<mapsto> ''uses: acme/tool@cafebabe # v1.3.0-1\<newline>''])
          \<lparr>version_cache := [(''acme'', ''tool'') \<mapsto> (''v1.3.0-1'', ''cafebabe'')],
           requests := [(''acme'', ''tool'')],
           total_files := 1, files_updated := 1, total_changes := 1\<rparr>)
     = (Inr (''uses: acme/tool@cafebabe # v1.3.0-1-1\<newline>'', True),
        (start_world [''ci.yml'' \<mapsto> ''uses: acme/tool@cafebabe # v1.3.0-1\<newline>''])
          \<lparr>version_cache := [(''acme'', ''tool'') \<mapsto> (''v1.3.0-1'', ''cafebabe'')],
           requests := [(''acme'', ''tool'')],
           total_files := 1, files_updated := 1, total_changes := 1\<rparr>)
   \<and> update_files ((plain_env (\<lambda>n. tags_response ''v1.3.0-1'' ''cafebabe''))\<lparr>version_gt := post_release_gt\<rparr>)
       None False False False [''ci.yml'']
       ((start_world [''ci.yml'' \<mapsto> ''uses: acme/tool@cafebabe # v1.3.0-1\<newline>''])
          \<lparr>version_cache := [(''acme'', ''tool'') \<mapsto> (''v1.3.0-1'', ''cafebabe'')],
           requests := [(''acme'', ''tool'')],
           total_files := 1, files_updated := 1, total_changes := 1\<rparr>)
     = (None,
        (start_world [''ci.yml'' \<mapsto> ''uses: acme/tool@cafebabe # v1.3.0-1-1\<newline>''])
          \<lparr>version_cache := [(''acme'', ''tool'') \<mapsto> (''v1.3.0-1'', ''cafebabe'')],
           requests := [(''acme'', ''tool'')],
           total_files := 2, files_updated := 2, total_changes := 2\<rparr>)"
  by (simp add: file_defs line_defs resolver_defs concrete_defs char_class_defs)
end
